theory Spec2Isabelle
  imports Complex_Main "HOL-Library.Multiset" "HOL-Library.Product_Lexorder"
begin

section \<open>JavaScript numbers\<close>

text \<open>
  A number is a finite double, an infinity or NaN. A finite double is written as the real
  number it denotes; \<open>+0\<close> and \<open>-0\<close>, which compare equal, are the one value \<open>Fin 0\<close>.
  How an exact result is rounded to double precision is not fixed here: the rounding is the
  argument \<open>r\<close> of every arithmetic operation, and what is proved holds for every \<open>r\<close>, so
  also for the round-to-nearest of IEEE 754. A rounded result whose magnitude reaches
  \<open>2 ^ 1024\<close> overflows to an infinity. Sums, products, quotients and square roots of
  infinities and NaN follow IEEE 754.
\<close>

datatype number = Fin real | PosInf | NegInf | NaN

type_synonym rounding = "real \<Rightarrow> real"

definition fl :: "rounding \<Rightarrow> real \<Rightarrow> number" where
  "fl r x =
     (if 2 ^ 1024 \<le> r x then PosInf
      else if r x \<le> - (2 ^ 1024) then NegInf
      else Fin (r x))"

definition infOf :: "bool \<Rightarrow> number" where
  "infOf positive = (if positive then PosInf else NegInf)"

fun jadd :: "rounding \<Rightarrow> number \<Rightarrow> number \<Rightarrow> number" where
  "jadd r (Fin x) (Fin y) = fl r (x + y)"
| "jadd r NaN b = NaN"
| "jadd r a NaN = NaN"
| "jadd r PosInf NegInf = NaN"
| "jadd r NegInf PosInf = NaN"
| "jadd r PosInf b = PosInf"
| "jadd r a PosInf = PosInf"
| "jadd r NegInf b = NegInf"
| "jadd r a NegInf = NegInf"

fun jmul :: "rounding \<Rightarrow> number \<Rightarrow> number \<Rightarrow> number" where
  "jmul r (Fin x) (Fin y) = fl r (x * y)"
| "jmul r NaN b = NaN"
| "jmul r a NaN = NaN"
| "jmul r (Fin x) PosInf = (if x = 0 then NaN else infOf (0 < x))"
| "jmul r (Fin x) NegInf = (if x = 0 then NaN else infOf (x < 0))"
| "jmul r PosInf (Fin y) = (if y = 0 then NaN else infOf (0 < y))"
| "jmul r NegInf (Fin y) = (if y = 0 then NaN else infOf (y < 0))"
| "jmul r PosInf PosInf = PosInf"
| "jmul r NegInf NegInf = PosInf"
| "jmul r PosInf NegInf = NegInf"
| "jmul r NegInf PosInf = NegInf"

text \<open>
  Division by zero gives NaN for \<open>0 / 0\<close> and otherwise an infinity. With one zero its sign
  is that of the dividend, as for a divisor \<open>+0\<close>; the divisors of this program are square
  roots, their products and positive constants.
\<close>

fun jdiv :: "rounding \<Rightarrow> number \<Rightarrow> number \<Rightarrow> number" where
  "jdiv r (Fin x) (Fin y) =
     (if y = 0 then (if x = 0 then NaN else infOf (0 < x)) else fl r (x / y))"
| "jdiv r NaN b = NaN"
| "jdiv r a NaN = NaN"
| "jdiv r (Fin x) b = Fin 0"
| "jdiv r PosInf (Fin y) = infOf (0 \<le> y)"
| "jdiv r NegInf (Fin y) = infOf (y < 0)"
| "jdiv r a b = NaN"

fun jsqrt :: "rounding \<Rightarrow> number \<Rightarrow> number" where
  "jsqrt r (Fin x) = (if x < 0 then NaN else fl r (sqrt x))"
| "jsqrt r PosInf = PosInf"
| "jsqrt r NegInf = NaN"
| "jsqrt r NaN = NaN"

text \<open>The comparisons \<open>a > b\<close> and \<open>a >= b\<close>: false as soon as one side is NaN.\<close>

fun jgt :: "number \<Rightarrow> number \<Rightarrow> bool" where
  "jgt NaN b = False"
| "jgt a NaN = False"
| "jgt (Fin x) (Fin y) = (y < x)"
| "jgt a PosInf = False"
| "jgt PosInf b = True"
| "jgt NegInf b = False"
| "jgt a NegInf = True"

definition jge :: "number \<Rightarrow> number \<Rightarrow> bool" where
  "jge a b = (jgt a b \<or> (a = b \<and> a \<noteq> NaN))"

text \<open>A decimal literal of the source, such as \<open>0.3\<close>, denotes the double nearest to it.\<close>

definition lit :: "rounding \<Rightarrow> real \<Rightarrow> number" where
  "lit r x = Fin (r x)"

section \<open>Shared data model (types/api-types.ts)\<close>

text \<open>
  Strings are \<open>string\<close>; a character's code is \<open>of_char\<close>. Record fields carry a prefix
  where two interfaces of the source share a field name.
\<close>

datatype error =
    DimensionMismatch
  | FlowNotFound string
  | UnknownAction string
  | TypeError

record Metadata =
  md_name :: string
  md_type :: string
  md_capabilities :: "string list"
  md_description :: string

record APIEmbedding =
  apiId :: string
  embedding :: "number list"
  metadata :: Metadata

record SemanticSimilarity =
  api1 :: string
  api2 :: string
  similarity :: number
  sharedCapabilities :: "string list"

section \<open>EmbeddingEngine.calculateSimilarity\<close>

text \<open>
  The loop of \<open>calculateSimilarity\<close>: one pass over both arrays that accumulates
  \<open>dotProduct\<close>, \<open>magnitude1\<close> and \<open>magnitude2\<close>. It is only entered when both
  arrays have the same length.
\<close>

fun similarityLoop ::
  "rounding \<Rightarrow> number list \<Rightarrow> number list \<Rightarrow> number \<times> number \<times> number \<Rightarrow>
   number \<times> number \<times> number"
where
  "similarityLoop r (x # xs) (y # ys) (dotProduct, magnitude1, magnitude2) =
     similarityLoop r xs ys
       (jadd r dotProduct (jmul r x y), jadd r magnitude1 (jmul r x x),
        jadd r magnitude2 (jmul r y y))"
| "similarityLoop r _ _ acc = acc"

definition calculateSimilarity :: "rounding \<Rightarrow> number list \<Rightarrow> number list \<Rightarrow> error + number" where
  "calculateSimilarity r embedding1 embedding2 =
     (if length embedding1 \<noteq> length embedding2 then Inl DimensionMismatch
      else
        (case similarityLoop r embedding1 embedding2 (Fin 0, Fin 0, Fin 0) of
           (dotProduct, m1, m2) \<Rightarrow>
             (let magnitude1 = jsqrt r m1; magnitude2 = jsqrt r m2
              in if magnitude1 = Fin 0 \<or> magnitude2 = Fin 0 then Inr (Fin 0)
                 else Inr (jdiv r dotProduct (jmul r magnitude1 magnitude2)))))"

text \<open>
  The notions the specification names. In double arithmetic: the sum of the products of the
  components, accumulated from the left, and the cosine formula over such sums. In exact
  arithmetic, on the real numbers that finite vectors denote: dot product and Euclidean norm.
\<close>

definition sumProducts :: "rounding \<Rightarrow> number list \<Rightarrow> number list \<Rightarrow> number" where
  "sumProducts r a b = foldl (jadd r) (Fin 0) (map2 (jmul r) a b)"

definition floatNorm :: "rounding \<Rightarrow> number list \<Rightarrow> number" where
  "floatNorm r a = jsqrt r (sumProducts r a a)"

definition floatCosine :: "rounding \<Rightarrow> number list \<Rightarrow> number list \<Rightarrow> number" where
  "floatCosine r a b =
     (if floatNorm r a = Fin 0 \<or> floatNorm r b = Fin 0 then Fin 0
      else jdiv r (sumProducts r a b) (jmul r (floatNorm r a) (floatNorm r b)))"

definition dot_product :: "real list \<Rightarrow> real list \<Rightarrow> real" where
  "dot_product a b = (\<Sum>i < length a. a ! i * b ! i)"

definition euclidean_norm :: "real list \<Rightarrow> real" where
  "euclidean_norm a = sqrt (\<Sum>i < length a. (a ! i)\<^sup>2)"

text \<open>Rounding that changes nothing, for runs on values that need no rounding.\<close>

definition exact :: rounding where
  "exact x = x"

section \<open>EmbeddingEngine: the fallback embedding\<close>

record APIConfig =
  cfg_id :: string
  cfg_name :: string
  cfg_type :: string
  cfg_description :: string
  cfg_endpoints :: "string list"
  cfg_capabilities :: "string list"
  apiKey :: string
  envKey :: string
  configSource :: string

text \<open>\<open>Array.prototype.join\<close> on an array of strings.\<close>

fun join :: "string \<Rightarrow> string list \<Rightarrow> string" where
  "join sep [] = []"
| "join sep [x] = x"
| "join sep (x # y # ys) = x @ sep @ join sep (y # ys)"

definition createAPIText :: "APIConfig \<Rightarrow> string" where
  "createAPIText api =
     cfg_name api @ '' '' @ cfg_type api @ '' '' @ cfg_description api @ '' '' @
     join '' '' (cfg_capabilities api)"

text \<open>
  The accumulation loop of \<open>generateMockEmbedding\<close>:
  \<^verbatim>\<open>for (let i = 0; i < text.length && i < embedding.length; i++)
      embedding[i % embedding.length] += text.charCodeAt(i) / 1000;\<close>
\<close>

function mockEmbeddingLoop :: "rounding \<Rightarrow> string \<Rightarrow> nat \<Rightarrow> number list \<Rightarrow> number list" where
  "mockEmbeddingLoop r text i emb =
     (if i < length text \<and> i < length emb
      then mockEmbeddingLoop r text (i + 1)
             (emb[i mod length emb :=
                jadd r (emb ! (i mod length emb))
                       (jdiv r (Fin (real (of_char (text ! i)))) (Fin 1000))])
      else emb)"
  by pat_completeness auto
termination
  by (relation "measure (\<lambda>(r, text, i, emb). length emb - i)") auto

declare mockEmbeddingLoop.simps [simp del]

text \<open>\<open>magnitude || 1\<close>: the value 1 when \<open>magnitude\<close> is 0 or NaN.\<close>

definition orOne :: "number \<Rightarrow> number" where
  "orOne magnitude = (if magnitude = Fin 0 \<or> magnitude = NaN then Fin 1 else magnitude)"

definition generateMockEmbedding :: "rounding \<Rightarrow> string \<Rightarrow> number list" where
  "generateMockEmbedding r text =
     (let emb = mockEmbeddingLoop r text 0 (replicate 384 (Fin 0));
          magnitude = jsqrt r (foldl (\<lambda>sum val. jadd r sum (jmul r val val)) (Fin 0) emb)
      in map (\<lambda>val. jdiv r val (orOne magnitude)) emb)"

definition generateLocalEmbedding :: "rounding \<Rightarrow> APIConfig \<Rightarrow> number list" where
  "generateLocalEmbedding r api = generateMockEmbedding r (createAPIText api)"

section \<open>EmbeddingEngine.findSimilarAPIs\<close>

text \<open>
  The cache \<open>embeddings : Map<string, APIEmbedding>\<close> is an association list in
  insertion order, which is the order a JavaScript \<open>Map\<close> iterates in; \<open>get\<close> is
  \<open>map_of\<close>. The loop returns the records in the order they are pushed.
\<close>

definition sharedCaps :: "string list \<Rightarrow> string list \<Rightarrow> string list" where
  "sharedCaps caps1 caps2 = filter (\<lambda>cap. cap \<in> set caps2) caps1"

fun findSimilarLoop ::
  "rounding \<Rightarrow> string \<Rightarrow> APIEmbedding \<Rightarrow> number \<Rightarrow> (string \<times> APIEmbedding) list \<Rightarrow>
   error + SemanticSimilarity list"
where
  "findSimilarLoop r targetApiId targetEmbedding threshold [] = Inr []"
| "findSimilarLoop r targetApiId targetEmbedding threshold ((apiId', emb) # rest) =
     (if apiId' = targetApiId then findSimilarLoop r targetApiId targetEmbedding threshold rest
      else
        (case calculateSimilarity r (embedding targetEmbedding) (embedding emb) of
           Inl e \<Rightarrow> Inl e
         | Inr sim \<Rightarrow>
             (case findSimilarLoop r targetApiId targetEmbedding threshold rest of
                Inl e \<Rightarrow> Inl e
              | Inr similarities \<Rightarrow>
                  Inr (if jge sim threshold
                       then \<lparr>api1 = targetApiId, api2 = apiId', similarity = sim,
                             sharedCapabilities =
                               sharedCaps (md_capabilities (metadata targetEmbedding))
                                          (md_capabilities (metadata emb))\<rparr> # similarities
                       else similarities))))"

text \<open>
  \<open>similarities.sort((a, b) => b.similarity - a.similarity)\<close>. No record of the list has
  the similarity NaN, which fails the test \<open>similarity >= threshold\<close>. On such numbers the
  difference is negative exactly when \<open>a\<close> has the greater similarity and positive exactly
  when \<open>b\<close> has; it is NaN for two equal infinities, which a comparator result counts as 0.
  \<open>Array.prototype.sort\<close> is stable, so it is the stable sort by descending similarity:
  \<open>descKey\<close> lists the numbers from the greatest down.
\<close>

fun descKey :: "number \<Rightarrow> nat \<times> real" where
  "descKey PosInf = (0, 0)"
| "descKey (Fin x) = (1, - x)"
| "descKey NegInf = (2, 0)"
| "descKey NaN = (3, 0)"

definition findSimilarAPIs ::
  "rounding \<Rightarrow> (string \<times> APIEmbedding) list \<Rightarrow> string \<Rightarrow> number \<Rightarrow>
   error + SemanticSimilarity list"
where
  "findSimilarAPIs r embeddings targetApiId threshold =
     (case map_of embeddings targetApiId of
        None \<Rightarrow> Inr []
      | Some targetEmbedding \<Rightarrow>
          (case findSimilarLoop r targetApiId targetEmbedding threshold embeddings of
             Inl e \<Rightarrow> Inl e
           | Inr similarities \<Rightarrow> Inr (sort_key (\<lambda>s. descKey (similarity s)) similarities)))"

section \<open>SemanticGraphGenerator: data\<close>

record GraphNode =
  node_id :: string
  node_name :: string
  node_type :: string
  node_capabilities :: "string list"
  node_description :: string

record GraphEdge =
  edge_from :: string
  edge_to :: string
  weight :: number
  edge_type :: string
  edge_sharedCapabilities :: "string list"

text \<open>
  Of a cluster and of a recommendation the model keeps the fields the graph logic decides;
  the display texts (\<open>name\<close>, \<open>description\<close>), which format numbers and change letter
  case, are left out. Of the metadata of the graph it keeps the two counts and leaves out the
  fixed title and description and the time stamp.
\<close>

record Cluster =
  cluster_id :: string
  cluster_type :: string
  members :: "string list"

datatype priority = High | Medium | Low

record Recommendation =
  rec_type :: string
  rec_priority :: priority
  title :: string
  suggestedAction :: string
  affectedAPIs :: "string list"


section \<open>JavaScript Map as an insertion-ordered association list\<close>

text \<open>
  \<open>has\<close>, \<open>set\<close> (a new key goes to the end, an existing key keeps its place) and the
  in-place change of the array stored under a key (\<open>map.get(k)!.push(x)\<close>).
\<close>

definition mapHas :: "'k \<Rightarrow> ('k \<times> 'v) list \<Rightarrow> bool" where
  "mapHas k m = (k \<in> set (map fst m))"

fun mapSet :: "'k \<Rightarrow> 'v \<Rightarrow> ('k \<times> 'v) list \<Rightarrow> ('k \<times> 'v) list" where
  "mapSet k v [] = [(k, v)]"
| "mapSet k v ((k', v') # m) = (if k' = k then (k, v) # m else (k', v') # mapSet k v m)"

fun mapModify :: "'k \<Rightarrow> ('v \<Rightarrow> 'v) \<Rightarrow> ('k \<times> 'v) list \<Rightarrow> ('k \<times> 'v) list" where
  "mapModify k f [] = []"
| "mapModify k f ((k', v') # m) = (if k' = k then (k', f v') # m else (k', v') # mapModify k f m)"

text \<open>\<open>if (!m.has(k)) m.set(k, [])\<close>\<close>

definition ensureKey :: "'k \<Rightarrow> ('k \<times> 'v list) list \<Rightarrow> ('k \<times> 'v list) list" where
  "ensureKey k m = (if mapHas k m then m else mapSet k [] m)"

section \<open>SemanticGraphGenerator.determineEdgeType\<close>




section \<open>SemanticGraphGenerator.identifyClusters\<close>

text \<open>\<open>if (!groups.has(k)) groups.set(k, []); groups.get(k)!.push(node)\<close>\<close>

definition groupPush :: "'k \<Rightarrow> 'v \<Rightarrow> ('k \<times> 'v list) list \<Rightarrow> ('k \<times> 'v list) list" where
  "groupPush k v m = mapModify k (\<lambda>vs. vs @ [v]) (ensureKey k m)"

definition typeGroups :: "GraphNode list \<Rightarrow> (string \<times> GraphNode list) list" where
  "typeGroups ns = foldl (\<lambda>groups node. groupPush (node_type node) node groups) [] ns"

definition capabilityGroups :: "GraphNode list \<Rightarrow> (string \<times> GraphNode list) list" where
  "capabilityGroups ns =
     foldl (\<lambda>groups node.
              foldl (\<lambda>groups' capability. groupPush capability node groups')
                    groups (node_capabilities node))
           [] ns"

definition typeCluster :: "string \<times> GraphNode list \<Rightarrow> Cluster" where
  "typeCluster g =
     \<lparr>cluster_id = ''cluster-'' @ fst g, cluster_type = ''type-based'',
      members = map node_id (snd g)\<rparr>"

definition capabilityCluster :: "string \<times> GraphNode list \<Rightarrow> Cluster" where
  "capabilityCluster g =
     \<lparr>cluster_id = ''cluster-capability-'' @ fst g, cluster_type = ''capability-based'',
      members = map node_id (snd g)\<rparr>"

text \<open>The parameter \<open>edges\<close> of the source is not read by the function.\<close>

definition identifyClusters :: "GraphNode list \<Rightarrow> GraphEdge list \<Rightarrow> Cluster list" where
  "identifyClusters ns es =
     map typeCluster (filter (\<lambda>g. length (snd g) > 1) (typeGroups ns)) @
     map capabilityCluster (filter (\<lambda>g. length (snd g) > 1) (capabilityGroups ns))"

section \<open>SemanticGraphGenerator.generateRecommendations\<close>

definition highSimilarityRec :: "SemanticSimilarity \<Rightarrow> Recommendation" where
  "highSimilarityRec sim =
     \<lparr>rec_type = ''high-similarity'', rec_priority = High,
      title = ''Strong Semantic Match Found'',
      suggestedAction = ''Consider creating a workflow that combines these APIs'',
      affectedAPIs = [api1 sim, api2 sim]\<rparr>"

text \<open>\<open>if (!m.get(cap)!.includes(api)) m.get(cap)!.push(api)\<close>\<close>

definition pushIfAbsent :: "'v \<Rightarrow> 'v list \<Rightarrow> 'v list" where
  "pushIfAbsent v vs = (if v \<in> set vs then vs else vs @ [v])"

definition clusterStep ::
  "SemanticSimilarity \<Rightarrow> (string \<times> string list) list \<Rightarrow> string \<Rightarrow> (string \<times> string list) list"
where
  "clusterStep sim m cap =
     mapModify cap (pushIfAbsent (api2 sim))
       (mapModify cap (pushIfAbsent (api1 sim)) (ensureKey cap m))"

definition capabilityClusters :: "SemanticSimilarity list \<Rightarrow> (string \<times> string list) list" where
  "capabilityClusters sims =
     foldl (\<lambda>m sim. foldl (clusterStep sim) m (sharedCapabilities sim)) [] sims"

definition capabilityClusterRec :: "string \<times> string list \<Rightarrow> Recommendation" where
  "capabilityClusterRec c =
     \<lparr>rec_type = ''capability-cluster'', rec_priority = Medium,
      title = ''Multiple '' @ fst c @ '' Providers'',
      suggestedAction = ''Consider load balancing or failover strategies'',
      affectedAPIs = snd c\<rparr>"

definition generateRecommendations ::
  "rounding \<Rightarrow> SemanticSimilarity list \<Rightarrow> Recommendation list"
where
  "generateRecommendations r sims =
     map highSimilarityRec (filter (\<lambda>s. jgt (similarity s) (lit r 0.8)) sims) @
     map capabilityClusterRec (filter (\<lambda>c. length (snd c) > 2) (capabilityClusters sims))"

section \<open>SemanticGraphGenerator.createSemanticGraph\<close>







section \<open>OrchestrationEngine: data\<close>

datatype status = Pending | Running | Completed | Failed

text \<open>
  The payload of a step has type \<open>any\<close>. The model takes JSON-like data: on these values a
  property read fails exactly on \<open>null\<close> and \<open>undefined\<close>, and \<open>JSON.stringify\<close> does
  not throw.
\<close>

datatype jsvalue =
    JUndefined
  | JNull
  | JBool bool
  | JNumber real
  | JString string
  | JObject "(string \<times> jsvalue) list"

record StepWithoutId =
  action :: string
  step_apiId :: string
  payload :: jsvalue
  order :: int

record OrchestrationStep = StepWithoutId +
  step_id :: string

record APIOrchestrationFlow =
  flow_id :: string
  flow_name :: string
  steps :: "OrchestrationStep list"
  apis :: "string list"
  status :: status

text \<open>The registry \<open>activeFlows : Map<string, APIOrchestrationFlow>\<close>.\<close>

type_synonym engine = "string \<rightharpoonup> APIOrchestrationFlow"

text \<open>
  \<open>Date.now()\<close> is a reading of the clock, in milliseconds; each operation that calls it
  takes the reading as its argument \<open>now\<close>. Template literals print it in decimal.
\<close>

definition digit :: "nat \<Rightarrow> char" where
  "digit d = ''0123456789'' ! d"

fun decimal :: "nat \<Rightarrow> string" where
  "decimal n = (if n < 10 then [digit n] else decimal (n div 10) @ [digit (n mod 10)])"

declare decimal.simps [simp del]

section \<open>OrchestrationEngine: operations\<close>

definition createOrchestrationFlow ::
  "nat \<Rightarrow> string \<Rightarrow> APIConfig list \<Rightarrow> engine \<Rightarrow> APIOrchestrationFlow \<times> engine"
where
  "createOrchestrationFlow now name apiList activeFlows =
     (let flow = \<lparr>flow_id = ''flow-'' @ decimal now, flow_name = name, steps = [],
                  apis = map cfg_id apiList, status = Pending\<rparr>
      in (flow, activeFlows(flow_id flow \<mapsto> flow)))"

text \<open>
  \<open>flow.steps.sort((a, b) => a.order - b.order)\<close>: the stable sort by ascending
  \<open>order\<close>.
\<close>

definition addOrchestrationStep ::
  "nat \<Rightarrow> string \<Rightarrow> StepWithoutId \<Rightarrow> engine \<Rightarrow> error + engine"
where
  "addOrchestrationStep now flowId step activeFlows =
     (case activeFlows flowId of
        None \<Rightarrow> Inl (FlowNotFound flowId)
      | Some flow \<Rightarrow>
          (let newStep = \<lparr>action = action step, step_apiId = step_apiId step,
                          payload = payload step, order = order step,
                          step_id = ''step-'' @ decimal now\<rparr>
           in Inr (activeFlows(flowId \<mapsto>
                     flow\<lparr>steps := sort_key order (steps flow @ [newStep])\<rparr>))))"

text \<open>
  The four handlers are mocks. Their results are discarded by \<open>executeFlow\<close>, so the model
  keeps whether they return or throw: \<open>authenticateAPI\<close> does not read the payload; the
  other three read a property of it.
\<close>

definition readProperty :: "jsvalue \<Rightarrow> error + unit" where
  "readProperty p = (if p = JUndefined \<or> p = JNull then Inl TypeError else Inr ())"

definition authenticateAPI :: "string \<Rightarrow> jsvalue \<Rightarrow> error + unit" where
  "authenticateAPI api p = Inr ()"

definition queryAPI :: "string \<Rightarrow> jsvalue \<Rightarrow> error + unit" where
  "queryAPI api p = readProperty p"

definition transformData :: "jsvalue \<Rightarrow> error + unit" where
  "transformData p = readProperty p"

definition forwardData :: "string \<Rightarrow> jsvalue \<Rightarrow> error + unit" where
  "forwardData api p = readProperty p"

definition executeStep :: "OrchestrationStep \<Rightarrow> error + unit" where
  "executeStep step =
     (if action step = ''authenticate'' then authenticateAPI (step_apiId step) (payload step)
      else if action step = ''query'' then queryAPI (step_apiId step) (payload step)
      else if action step = ''transform'' then transformData (payload step)
      else if action step = ''forward'' then forwardData (step_apiId step) (payload step)
      else Inl (UnknownAction (action step)))"

text \<open>
  What \<open>executeFlow\<close> does, in order: each assignment to \<open>flow.status\<close> and each call of
  \<open>executeStep\<close>. The messages it shows in the editor window are not modelled.
\<close>

datatype event = SetStatus status | ExecuteStep OrchestrationStep

text \<open>
  \<open>for (const step of flow.steps) await this.executeStep(step)\<close>: the calls made, and the
  exception that ended the loop, if any.
\<close>

fun runSteps :: "OrchestrationStep list \<Rightarrow> event list \<times> error option" where
  "runSteps [] = ([], None)"
| "runSteps (step # rest) =
     (case executeStep step of
        Inl err \<Rightarrow> ([ExecuteStep step], Some err)
      | Inr _ \<Rightarrow> (case runSteps rest of (evs, r) \<Rightarrow> (ExecuteStep step # evs, r)))"

record ExecResult =
  outcome :: "error + unit"
  registry :: engine
  trace :: "event list"

definition executeFlow :: "string \<Rightarrow> engine \<Rightarrow> ExecResult" where
  "executeFlow flowId activeFlows =
     (case activeFlows flowId of
        None \<Rightarrow> \<lparr>outcome = Inl (FlowNotFound flowId), registry = activeFlows, trace = []\<rparr>
      | Some flow \<Rightarrow>
          (let running = flow\<lparr>status := Running\<rparr>
           in case runSteps (steps running) of
                (evs, None) \<Rightarrow>
                  \<lparr>outcome = Inr (),
                   registry = activeFlows(flowId \<mapsto> running\<lparr>status := Completed\<rparr>),
                   trace = SetStatus Running # evs @ [SetStatus Completed]\<rparr>
              | (evs, Some err) \<Rightarrow>
                  \<lparr>outcome = Inl err,
                   registry = activeFlows(flowId \<mapsto> running\<lparr>status := Failed\<rparr>),
                   trace = SetStatus Running # evs @ [SetStatus Failed]\<rparr>))"


definition getFlow :: "string \<Rightarrow> engine \<Rightarrow> APIOrchestrationFlow option" where
  "getFlow flowId activeFlows = activeFlows flowId"

section \<open>Concrete scenarios\<close>

text \<open>Small runs of the engine, used to exercise the theorems on concrete inputs.\<close>

definition engineOf :: "error + engine \<Rightarrow> engine" where
  "engineOf r = (case r of Inl e \<Rightarrow> Map.empty | Inr activeFlows \<Rightarrow> activeFlows)"


definition flowStepIds :: "string \<Rightarrow> engine \<Rightarrow> string list option" where
  "flowStepIds flowId activeFlows = map_option (\<lambda>flow. map step_id (steps flow)) (activeFlows flowId)"

definition flowStepActions :: "string \<Rightarrow> engine \<Rightarrow> string list option" where
  "flowStepActions flowId activeFlows =
     map_option (\<lambda>flow. map action (steps flow)) (activeFlows flowId)"

definition authenticateStep :: StepWithoutId where
  "authenticateStep =
     \<lparr>action = ''authenticate'', step_apiId = ''OpenAI'', payload = JObject [], order = 1\<rparr>"

definition forwardStep :: StepWithoutId where
  "forwardStep =
     \<lparr>action = ''forward'', step_apiId = ''GitHub'', payload = JObject [], order = 4\<rparr>"

definition syncStep :: StepWithoutId where
  "syncStep = \<lparr>action = ''sync'', step_apiId = ''all'', payload = JObject [], order = 5\<rparr>"

definition withId :: "string \<Rightarrow> StepWithoutId \<Rightarrow> OrchestrationStep" where
  "withId i step =
     \<lparr>action = action step, step_apiId = step_apiId step, payload = payload step,
      order = order step, step_id = i\<rparr>"


text \<open>A registered flow with three steps, the second of an action that is not dispatched.\<close>

definition threeStepFlow :: APIOrchestrationFlow where
  "threeStepFlow =
     \<lparr>flow_id = ''flow-7'', flow_name = ''docs'',
      steps = [withId ''a'' authenticateStep, withId ''b'' syncStep, withId ''c'' forwardStep],
      apis = [], status = Pending\<rparr>"

definition twoStepFlow :: APIOrchestrationFlow where
  "twoStepFlow =
     \<lparr>flow_id = ''flow-8'', flow_name = ''docs'',
      steps = [withId ''a'' authenticateStep, withId ''c'' forwardStep],
      apis = [], status = Pending\<rparr>"

text \<open>Two flows created at the same clock reading.\<close>

definition firstCreate :: "APIOrchestrationFlow \<times> engine" where
  "firstCreate = createOrchestrationFlow 1700000000000 ''A'' [] Map.empty"

definition secondCreate :: "APIOrchestrationFlow \<times> engine" where
  "secondCreate = createOrchestrationFlow 1700000000000 ''B'' [] (snd firstCreate)"

text \<open>Two steps added to one flow at the same clock reading, the larger order first.\<close>

definition twoStepsSameClock :: engine where
  "twoStepsSameClock =
     engineOf (addOrchestrationStep 5 ''flow-1'' authenticateStep
       (engineOf (addOrchestrationStep 5 ''flow-1'' forwardStep
          (snd (createOrchestrationFlow 1 ''demo'' [] Map.empty)))))"

text \<open>A descriptor whose text signature is longer than 384 characters, with given capability tags.\<close>

definition longDescriptor :: "string list \<Rightarrow> APIConfig" where
  "longDescriptor caps =
     \<lparr>cfg_id = ''svc-1'', cfg_name = ''Svc'', cfg_type = ''ai'',
      cfg_description = replicate 400 CHR ''x'', cfg_endpoints = [], cfg_capabilities = caps,
      apiKey = ''k'', envKey = ''SVC_KEY'', configSource = ''.env''\<rparr>"

text \<open>Embeddings with small vectors.\<close>

definition mkEmbedding :: "string \<Rightarrow> number list \<Rightarrow> string \<Rightarrow> string list \<Rightarrow> APIEmbedding" where
  "mkEmbedding i v t caps =
     \<lparr>apiId = i, embedding = v,
      metadata = \<lparr>md_name = i, md_type = t, md_capabilities = caps, md_description = []\<rparr>\<rparr>"

definition embA :: APIEmbedding where
  "embA = mkEmbedding ''a'' [Fin 1, Fin 0] ''ai'' [''text-generation'', ''embeddings'']"

definition embB :: APIEmbedding where
  "embB = mkEmbedding ''b'' [Fin 1, Fin 0] ''ai'' [''text-generation'', ''classification'']"

definition embC :: APIEmbedding where
  "embC = mkEmbedding ''c'' [Fin 0, Fin 1] ''version-control'' [''webhook'']"

definition cacheABC :: "(string \<times> APIEmbedding) list" where
  "cacheABC = [(''a'', embA), (''b'', embB), (''c'', embC)]"

definition recAB :: SemanticSimilarity where
  "recAB = \<lparr>api1 = ''a'', api2 = ''b'', similarity = Fin 1, sharedCapabilities = [''text-generation'']\<rparr>"

text \<open>The three descriptors of the demonstration script, as graph nodes.\<close>

definition demoNodes :: "GraphNode list" where
  "demoNodes =
     [\<lparr>node_id = ''openai-demo'', node_name = ''OpenAI'', node_type = ''ai'',
       node_capabilities = [''text-generation'', ''embeddings'', ''chat''],
       node_description = ''OpenAI API for language models and embeddings''\<rparr>,
      \<lparr>node_id = ''github-demo'', node_name = ''GitHub'', node_type = ''version-control'',
       node_capabilities = [''repository-management'', ''user-management'', ''webhook''],
       node_description = ''GitHub API for repository management''\<rparr>,
      \<lparr>node_id = ''huggingface-demo'', node_name = ''Hugging Face'', node_type = ''ai'',
       node_capabilities = [''text-generation'', ''embeddings'', ''classification''],
       node_description = ''Hugging Face API for machine learning models''\<rparr>]"

definition demoClusters :: "Cluster list" where
  "demoClusters =
     [\<lparr>cluster_id = ''cluster-ai'', cluster_type = ''type-based'',
       members = [''openai-demo'', ''huggingface-demo'']\<rparr>,
      \<lparr>cluster_id = ''cluster-capability-text-generation'', cluster_type = ''capability-based'',
       members = [''openai-demo'', ''huggingface-demo'']\<rparr>,
      \<lparr>cluster_id = ''cluster-capability-embeddings'', cluster_type = ''capability-based'',
       members = [''openai-demo'', ''huggingface-demo'']\<rparr>]"

text \<open>Two similarity records over three ids that share one capability.\<close>

definition simsABC :: "SemanticSimilarity list" where
  "simsABC =
     [\<lparr>api1 = ''a'', api2 = ''b'', similarity = Fin 0.9, sharedCapabilities = [''text-generation'']\<rparr>,
      \<lparr>api1 = ''a'', api2 = ''c'', similarity = Fin 0.5, sharedCapabilities = [''text-generation'']\<rparr>]"

definition recsABC :: "Recommendation list" where
  "recsABC =
     [\<lparr>rec_type = ''high-similarity'', rec_priority = High,
       title = ''Strong Semantic Match Found'',
       suggestedAction = ''Consider creating a workflow that combines these APIs'',
       affectedAPIs = [''a'', ''b'']\<rparr>,
      \<lparr>rec_type = ''capability-cluster'', rec_priority = Medium,
       title = ''Multiple text-generation Providers'',
       suggestedAction = ''Consider load balancing or failover strategies'',
       affectedAPIs = [''a'', ''b'', ''c'']\<rparr>]"





text \<open>A single node that lists one capability tag twice.\<close>

definition doubledNode :: GraphNode where
  "doubledNode =
     \<lparr>node_id = ''n1'', node_name = ''N'', node_type = ''ai'',
      node_capabilities = [''x'', ''x''], node_description = []\<rparr>"

definition doubledCluster :: Cluster where
  "doubledCluster =
     \<lparr>cluster_id = ''cluster-capability-x'', cluster_type = ''capability-based'',
      members = [''n1'', ''n1'']\<rparr>"

text \<open>A vector with one large component, a power of two, whose square is beyond the doubles.\<close>

definition huge :: real where
  "huge = 2 ^ 700"

definition hugeVector :: "number list" where
  "hugeVector = [Fin huge]"

section \<open>Notions used to state the grouping results\<close>

text \<open>
  The elements of a list in the order of their first occurrence: the order in which a
  JavaScript \<open>Map\<close> that is filled key by key lists its keys.
\<close>

definition firstOcc :: "'a list \<Rightarrow> 'a list" where
  "firstOcc xs = rev (remdups (rev xs))"

text \<open>
  One grouping step with an arbitrary way \<open>g\<close> of adding a value to the array under the
  key, and the closed form of a sequence of such steps from the empty map.
\<close>

definition put :: "('v \<Rightarrow> 'v list \<Rightarrow> 'v list) \<Rightarrow> 'k \<Rightarrow> 'v \<Rightarrow> ('k \<times> 'v list) list \<Rightarrow> ('k \<times> 'v list) list"
where
  "put g k v m = mapModify k (g v) (ensureKey k m)"

definition valuesOf :: "('v \<Rightarrow> 'v list \<Rightarrow> 'v list) \<Rightarrow> ('k \<times> 'v) list \<Rightarrow> 'k \<Rightarrow> 'v list" where
  "valuesOf g evs k = foldl (\<lambda>vs v. g v vs) [] (map snd (filter (\<lambda>e. fst e = k) evs))"

definition grouped :: "('v \<Rightarrow> 'v list \<Rightarrow> 'v list) \<Rightarrow> ('k \<times> 'v) list \<Rightarrow> ('k \<times> 'v list) list" where
  "grouped g evs = map (\<lambda>k. (k, valuesOf g evs k)) (firstOcc (map fst evs))"

text \<open>The nodes of a category tag, and the nodes that declare a capability tag.\<close>

definition nodesOfType :: "string \<Rightarrow> GraphNode list \<Rightarrow> GraphNode list" where
  "nodesOfType t ns = filter (\<lambda>n. node_type n = t) ns"

definition nodesWithCapability :: "string \<Rightarrow> GraphNode list \<Rightarrow> GraphNode list" where
  "nodesWithCapability cap ns = filter (\<lambda>n. cap \<in> set (node_capabilities n)) ns"

text \<open>
  The distinct ids that take part in a record sharing the capability, in the order in which
  they are first met.
\<close>

definition participants :: "string \<Rightarrow> SemanticSimilarity list \<Rightarrow> string list" where
  "participants cap sims =
     firstOcc (concat (map (\<lambda>s. [api1 s, api2 s])
                           (filter (\<lambda>s. cap \<in> set (sharedCapabilities s)) sims)))"

text \<open>The capability loop of \<open>identifyClusters\<close> as one sequence of (capability, node) pairs.\<close>

definition capEvents :: "GraphNode list \<Rightarrow> (string \<times> GraphNode) list" where
  "capEvents ns = concat (map (\<lambda>n. map (\<lambda>c. (c, n)) (node_capabilities n)) ns)"

text \<open>
  The capability loop of \<open>generateRecommendations\<close> as one sequence of (capability, id)
  pairs: for each record and each shared capability, first \<open>api1\<close>, then \<open>api2\<close>.
\<close>

definition simEvents :: "SemanticSimilarity list \<Rightarrow> (string \<times> string) list" where
  "simEvents sims =
     concat (map (\<lambda>s. concat (map (\<lambda>c. [(c, api1 s), (c, api2 s)]) (sharedCapabilities s))) sims)"








text \<open>
  The nodes that list a capability tag, each once for every time it lists the tag.
\<close>

definition listings :: "string \<Rightarrow> GraphNode list \<Rightarrow> GraphNode list" where
  "listings cap ns = concat (map (\<lambda>n. replicate (count_list (node_capabilities n) cap) n) ns)"

text \<open>Reading a decimal numeral back, to show that \<open>decimal\<close> loses nothing.\<close>

definition digitValue :: "char \<Rightarrow> nat" where
  "digitValue c = of_char c - 48"

definition undecimal :: "string \<Rightarrow> nat" where
  "undecimal s = foldl (\<lambda>a c. 10 * a + digitValue c) 0 s"

section \<open>Properties of calculateSimilarity\<close>

text \<open>
  The three accumulators of the loop are the sums of products, accumulated from the left in
  double arithmetic, so on vectors of one length the function returns the cosine formula
  over these sums.
\<close>

lemma similarityLoop_sums:
  "length a = length b \<Longrightarrow>
   similarityLoop r a b (d, m1, m2) =
     (foldl (jadd r) d (map2 (jmul r) a b),
      foldl (jadd r) m1 (map2 (jmul r) a a),
      foldl (jadd r) m2 (map2 (jmul r) b b))"
proof (induction a arbitrary: b d m1 m2)
  case Nil
  then show ?case by simp
next
  case (Cons x xs)
  then obtain y ys where b: "b = y # ys" and len: "length xs = length ys"
    by (cases b) auto
  show ?case
    by (simp add: b Cons.IH [OF len])
qed

lemma calculateSimilarity_same_length:
  "length a = length b \<Longrightarrow> calculateSimilarity r a b = Inr (floatCosine r a b)"
  by (simp add: calculateSimilarity_def similarityLoop_sums floatCosine_def floatNorm_def
      sumProducts_def Let_def)

lemma calculateSimilarity_mismatch:
  "length a \<noteq> length b \<Longrightarrow> calculateSimilarity r a b = Inl DimensionMismatch"
  by (simp add: calculateSimilarity_def)

lemma calculateSimilarity_total:
  "length a = length b \<Longrightarrow> \<exists>s. calculateSimilarity r a b = Inr s"
  by (simp add: calculateSimilarity_same_length)


text \<open>A vector of zeros has the computed norm 0, whatever the rounding does to other values.\<close>

lemma fl_zero: "r 0 = 0 \<Longrightarrow> fl r 0 = Fin 0"
  by (simp add: fl_def)

lemma foldl_jadd_zeros:
  "r 0 = 0 \<Longrightarrow> set xs \<subseteq> {Fin 0} \<Longrightarrow> foldl (jadd r) (Fin 0) xs = Fin 0"
  by (induction xs) (auto simp: fl_zero)

lemma floatNorm_zeros:
  assumes "r 0 = 0" and "set a \<subseteq> {Fin 0}"
  shows "floatNorm r a = Fin 0"
proof -
  have "set (map2 (jmul r) a a) \<subseteq> {Fin 0}"
  proof
    fix v assume "v \<in> set (map2 (jmul r) a a)"
    then obtain x y where "(x, y) \<in> set (zip a a)" and v: "v = jmul r x y"
      by auto
    then have "x \<in> set a" "y \<in> set a"
      by (auto dest: set_zip_leftD set_zip_rightD)
    with assms have "x = Fin 0" "y = Fin 0" by auto
    with v assms(1) show "v \<in> {Fin 0}" by (simp add: fl_zero)
  qed
  then have "sumProducts r a a = Fin 0"
    unfolding sumProducts_def using assms(1) by (rule foldl_jadd_zeros [rotated])
  then show ?thesis
    using assms(1) by (simp add: floatNorm_def fl_zero)
qed

text \<open>
  The square of \<open>2 ^ 700\<close> is \<open>2 ^ 1400\<close>, which no rounding to double precision brings
  below \<open>2 ^ 1024\<close>: the sums are infinite, and the quotient of two infinities is NaN.
\<close>

lemma fl_overflow: "2 ^ 1024 \<le> r x \<Longrightarrow> fl r x = PosInf"
  by (simp add: fl_def)

lemma huge_positive: "0 < huge"
  by (simp add: huge_def)

lemma square_overflows: "2 ^ 1024 \<le> huge * huge"
proof -
  have "huge * huge = 2 ^ 1400"
    by (simp add: huge_def power_add [symmetric])
  moreover have "(2::real) ^ 1024 \<le> 2 ^ 1400"
    by (rule power_increasing) simp_all
  ultimately show ?thesis by simp
qed

lemma overflow_gives_NaN:
  assumes "2 ^ 1024 \<le> r (huge * huge)"
  shows "calculateSimilarity r hugeVector hugeVector = Inr NaN"
  using assms
  by (simp add: calculateSimilarity_def hugeVector_def fl_overflow)

lemma exact_cosine_single:
  assumes "0 < x"
  shows "euclidean_norm [x] = x" and "dot_product [x] [x] = x * x"
  using assms by (simp_all add: euclidean_norm_def dot_product_def)

text \<open>
  The claim C3 as stated fails. The vector with the single component \<open>2 ^ 700\<close> has a
  Euclidean norm that is not zero, and its dot product with itself divided by the product of
  the norms is 1; \<open>calculateSimilarity\<close> returns NaN for it.
\<close>

theorem calculateSimilarity_overflow:
  "calculateSimilarity exact hugeVector hugeVector = Inr NaN \<and>
   hugeVector = map Fin [huge] \<and>
   euclidean_norm [huge] \<noteq> 0 \<and>
   dot_product [huge] [huge] / (euclidean_norm [huge] * euclidean_norm [huge]) = 1"
proof -
  have "2 ^ 1024 \<le> exact (huge * huge)"
    using square_overflows by (simp only: exact_def)
  then have "calculateSimilarity exact hugeVector hugeVector = Inr NaN"
    by (rule overflow_gives_NaN)
  moreover have "hugeVector = map Fin [huge]"
    by (simp add: hugeVector_def)
  moreover have "euclidean_norm [huge] \<noteq> 0"
    using huge_positive exact_cosine_single(1) [OF huge_positive] by simp
  moreover have "dot_product [huge] [huge] / (euclidean_norm [huge] * euclidean_norm [huge]) = 1"
    using huge_positive
    by (simp only: exact_cosine_single [OF huge_positive]) simp
  ultimately show ?thesis by blast
qed

text \<open>
  Claim C3, amended. \<open>calculateSimilarity\<close> fails with \<open>DimensionMismatch\<close> exactly when
  the two vectors differ in length. On vectors of one length it returns the cosine formula
  evaluated in double arithmetic. When either vector consists of zeros only, which is when
  its Euclidean norm is zero, the result is exactly 0, also when the other vector holds NaN.
  When neither computed norm is 0, the result is the computed sum of products divided by the
  product of the two computed norms, each operation rounded and subject to overflow. The
  function reads its two arguments and nothing else.
\<close>

theorem calculateSimilarity_float:
  "(calculateSimilarity r a b = Inl DimensionMismatch \<longleftrightarrow> length a \<noteq> length b) \<and>
   (length a = length b \<longrightarrow>
      calculateSimilarity r a b = Inr (floatCosine r a b) \<and>
      (r 0 = 0 \<and> (set a \<subseteq> {Fin 0} \<or> set b \<subseteq> {Fin 0}) \<longrightarrow>
         calculateSimilarity r a b = Inr (Fin 0)) \<and>
      (floatNorm r a \<noteq> Fin 0 \<and> floatNorm r b \<noteq> Fin 0 \<longrightarrow>
         calculateSimilarity r a b =
           Inr (jdiv r (sumProducts r a b) (jmul r (floatNorm r a) (floatNorm r b)))))"
proof -
  have zero: "r 0 = 0 \<and> (set a \<subseteq> {Fin 0} \<or> set b \<subseteq> {Fin 0}) \<Longrightarrow> floatCosine r a b = Fin 0"
    using floatNorm_zeros [of r a] floatNorm_zeros [of r b] by (auto simp: floatCosine_def)
  show ?thesis
    using calculateSimilarity_same_length [of a b r] calculateSimilarity_mismatch [of a b r] zero
    by (cases "length a = length b") (auto simp: floatCosine_def)
qed

lemma floatCosine_parallel: "floatCosine exact [Fin 1, Fin 0] [Fin 1, Fin 0] = Fin 1"
  by (simp add: floatCosine_def floatNorm_def sumProducts_def fl_def exact_def)

lemma floatCosine_orthogonal: "floatCosine exact [Fin 1, Fin 0] [Fin 0, Fin 1] = Fin 0"
  by (simp add: floatCosine_def floatNorm_def sumProducts_def fl_def exact_def)

theorem calculateSimilarity_float_witness:
  "calculateSimilarity exact [Fin 1, Fin 0] [Fin 1] = Inl DimensionMismatch \<and>
   calculateSimilarity exact [Fin 0, Fin 0] [Fin 1, NaN] = Inr (Fin 0) \<and>
   calculateSimilarity exact [Fin 1, Fin 0] [Fin 1, Fin 0] = Inr (Fin 1)"
proof -
  have z: "exact 0 = 0" by (simp add: exact_def)
  have a: "calculateSimilarity exact [Fin 1, Fin 0] [Fin 1] = Inl DimensionMismatch"
    using calculateSimilarity_float [of exact "[Fin 1, Fin 0]" "[Fin 1]"] by simp
  have "length [Fin 0, Fin 0] = length [Fin 1, NaN] \<longrightarrow>
      (exact 0 = 0 \<and> (set [Fin 0, Fin 0] \<subseteq> {Fin 0} \<or> set [Fin 1, NaN] \<subseteq> {Fin 0}) \<longrightarrow>
       calculateSimilarity exact [Fin 0, Fin 0] [Fin 1, NaN] = Inr (Fin 0))"
    using calculateSimilarity_float [of exact "[Fin 0, Fin 0]" "[Fin 1, NaN]"] by blast
  then have b: "calculateSimilarity exact [Fin 0, Fin 0] [Fin 1, NaN] = Inr (Fin 0)"
    using z by simp
  have c: "calculateSimilarity exact [Fin 1, Fin 0] [Fin 1, Fin 0] = Inr (Fin 1)"
    using calculateSimilarity_float [of exact "[Fin 1, Fin 0]" "[Fin 1, Fin 0]"]
      floatCosine_parallel
    by simp
  show ?thesis using a b c by simp
qed

section \<open>Properties of the fallback embedding\<close>

text \<open>
  The loop stops at \<open>i = embedding.length\<close>: what it computes depends on the first 384
  characters of the text only.
\<close>

lemma mockEmbeddingLoop_length: "length (mockEmbeddingLoop r t i emb) = length emb"
proof (induction r t i emb rule: mockEmbeddingLoop.induct)
  case (1 r t i emb)
  then show ?case
    by (subst mockEmbeddingLoop.simps) simp
qed

lemma mockEmbeddingLoop_take:
  "mockEmbeddingLoop r t i emb = mockEmbeddingLoop r (take (length emb) t) i emb"
proof (induction r t i emb rule: mockEmbeddingLoop.induct)
  case (1 r t i emb)
  show ?case
  proof (cases "i < length t \<and> i < length emb")
    case True
    then show ?thesis
      using "1.IH" by (subst mockEmbeddingLoop.simps, subst (2) mockEmbeddingLoop.simps) simp
  next
    case False
    then show ?thesis by (subst mockEmbeddingLoop.simps, subst (2) mockEmbeddingLoop.simps) auto
  qed
qed

lemma generateMockEmbedding_take:
  "generateMockEmbedding r t = generateMockEmbedding r (take 384 t)"
  using mockEmbeddingLoop_take [of r t 0 "replicate 384 (Fin 0)"]
  by (simp add: generateMockEmbedding_def)

text \<open>
  Position \<open>k\<close> of the accumulator receives the code of character \<open>k\<close> of the text and
  nothing else: no position is written twice.
\<close>

lemma mockEmbeddingLoop_nth:
  "k < length emb \<Longrightarrow>
   mockEmbeddingLoop r t i emb ! k =
     (if i \<le> k \<and> k < length t
      then jadd r (emb ! k) (jdiv r (Fin (real (of_char (t ! k)))) (Fin 1000))
      else emb ! k)"
proof (induction r t i emb rule: mockEmbeddingLoop.induct)
  case (1 r t i emb)
  show ?case
  proof (cases "i < length t \<and> i < length emb")
    case True
    then have m: "i mod length emb = i" by simp
    define emb' where
      "emb' = emb[i := jadd r (emb ! i) (jdiv r (Fin (real (of_char (t ! i)))) (Fin 1000))]"
    from True "1.IH" "1.prems" have
      "mockEmbeddingLoop r t (i + 1) emb' ! k =
         (if i + 1 \<le> k \<and> k < length t
          then jadd r (emb' ! k) (jdiv r (Fin (real (of_char (t ! k)))) (Fin 1000))
          else emb' ! k)"
      by (simp add: m emb'_def)
    with True "1.prems" show ?thesis
      by (subst mockEmbeddingLoop.simps) (auto simp: m emb'_def nth_list_update)
  next
    case False
    with "1.prems" show ?thesis
      by (subst mockEmbeddingLoop.simps) auto
  qed
qed

lemma mockEmbeddingLoop_positions:
  "mockEmbeddingLoop r t 0 (replicate 384 (Fin 0)) =
     map (\<lambda>k. if k < length t
               then jadd r (Fin 0) (jdiv r (Fin (real (of_char (t ! k)))) (Fin 1000))
               else Fin 0)
         [0..<384]"
  by (rule nth_equalityI) (simp_all add: mockEmbeddingLoop_length mockEmbeddingLoop_nth)

text \<open>
  Claim C4. The claim lets every character of the signature contribute, also those at an
  index of 384 or more. In the code they do not: two descriptors whose signatures, 412
  and 415 characters long, differ from index 408 on get the same embedding, whatever the
  rounding.
\<close>

theorem generateLocalEmbedding_ignores_tail:
  "createAPIText (longDescriptor [''chat'']) \<noteq> createAPIText (longDescriptor [''storage'']) \<and>
   length (createAPIText (longDescriptor [''chat''])) = 412 \<and>
   generateLocalEmbedding r (longDescriptor [''chat'']) =
     generateLocalEmbedding r (longDescriptor [''storage''])"
proof -
  have t: "take 384 (createAPIText (longDescriptor [''chat''])) =
           take 384 (createAPIText (longDescriptor [''storage'']))"
    by (simp add: createAPIText_def longDescriptor_def)
  have "generateLocalEmbedding r (longDescriptor [''chat'']) =
     generateLocalEmbedding r (longDescriptor [''storage''])"
    unfolding generateLocalEmbedding_def
    by (subst generateMockEmbedding_take, subst (2) generateMockEmbedding_take) (simp only: t)
  then show ?thesis
    by (simp add: createAPIText_def longDescriptor_def)
qed

section \<open>Properties of findSimilarAPIs\<close>

lemma findSimilarLoop_sound:
  "findSimilarLoop r t te thr es = Inr sims \<Longrightarrow> x \<in> set sims \<Longrightarrow>
   api1 x = t \<and> api2 x \<noteq> t \<and> jge (similarity x) thr \<and>
   (\<exists>e. (api2 x, e) \<in> set es \<and>
        calculateSimilarity r (embedding te) (embedding e) = Inr (similarity x) \<and>
        sharedCapabilities x =
          filter (\<lambda>cap. cap \<in> set (md_capabilities (metadata e))) (md_capabilities (metadata te)))"
proof (induction es arbitrary: sims)
  case Nil
  then show ?case by simp
next
  case (Cons p es)
  obtain k e where p: "p = (k, e)" by (cases p)
  show ?case
  proof (cases "k = t")
    case True
    with Cons p show ?thesis by auto
  next
    case False
    with Cons.prems p obtain sim rest where
      s: "calculateSimilarity r (embedding te) (embedding e) = Inr sim"
      and l: "findSimilarLoop r t te thr es = Inr rest"
      and sims: "sims = (if jge sim thr
                 then \<lparr>api1 = t, api2 = k, similarity = sim,
                       sharedCapabilities = sharedCaps (md_capabilities (metadata te))
                                                       (md_capabilities (metadata e))\<rparr> # rest
                 else rest)"
      by (auto split: sum.splits)
    show ?thesis
    proof (cases "x \<in> set rest")
      case True
      with Cons.IH [OF l] show ?thesis by (auto simp: p)
    next
      case False
      with sims Cons.prems(2) have
        "jge sim thr" and
        "x = \<lparr>api1 = t, api2 = k, similarity = sim,
              sharedCapabilities = sharedCaps (md_capabilities (metadata te))
                                              (md_capabilities (metadata e))\<rparr>"
        by (auto split: if_splits)
      with s \<open>k \<noteq> t\<close> show ?thesis by (auto simp: p sharedCaps_def)
    qed
  qed
qed

lemma findSimilarLoop_complete:
  "findSimilarLoop r t te thr es = Inr sims \<Longrightarrow> (k, e) \<in> set es \<Longrightarrow> k \<noteq> t \<Longrightarrow>
   calculateSimilarity r (embedding te) (embedding e) = Inr sim \<Longrightarrow> jge sim thr \<Longrightarrow>
   \<lparr>api1 = t, api2 = k, similarity = sim,
     sharedCapabilities = sharedCaps (md_capabilities (metadata te))
                                     (md_capabilities (metadata e))\<rparr> \<in> set sims"
proof (induction es arbitrary: sims)
  case Nil
  then show ?case by simp
next
  case (Cons p es)
  then show ?case
    by (cases p) (auto split: if_splits sum.splits)
qed

lemma findSimilarLoop_total:
  "\<forall>p\<in>set es. length (embedding (snd p)) = length (embedding te) \<Longrightarrow>
   \<exists>sims. findSimilarLoop r t te thr es = Inr sims"
proof (induction es)
  case Nil
  then show ?case by simp
next
  case (Cons p es)
  obtain k e where p: "p = (k, e)" by (cases p)
  from Cons obtain rest where rest: "findSimilarLoop r t te thr es = Inr rest" by auto
  from Cons.prems p have "length (embedding te) = length (embedding e)" by simp
  then obtain sim where "calculateSimilarity r (embedding te) (embedding e) = Inr sim"
    using calculateSimilarity_total by blast
  with rest p show ?case by auto
qed

text \<open>
  A number that passes \<open>>=\<close> is not NaN, and among such numbers the order of the sort keys
  is the descending order of the numbers.
\<close>

lemma jge_not_NaN: "jge a b \<Longrightarrow> a \<noteq> NaN"
  by (cases a) (auto simp: jge_def)

lemma descKey_jge: "descKey a \<le> descKey b \<Longrightarrow> a \<noteq> NaN \<Longrightarrow> b \<noteq> NaN \<Longrightarrow> jge a b"
  by (cases a; cases b) (auto simp: jge_def)

lemma sorted_descending:
  assumes "\<forall>s\<in>set sims. similarity s \<noteq> NaN"
  shows "sorted_wrt (\<lambda>a b. jge (similarity a) (similarity b))
           (sort_key (\<lambda>s. descKey (similarity s)) sims)"
proof -
  have "sorted (map (\<lambda>s. descKey (similarity s)) (sort_key (\<lambda>s. descKey (similarity s)) sims))"
    by (rule sorted_sort_key)
  then have "sorted_wrt (\<lambda>a b. descKey (similarity a) \<le> descKey (similarity b))
      (sort_key (\<lambda>s. descKey (similarity s)) sims)"
    by (simp add: sorted_map)
  then show ?thesis
  proof (rule sorted_wrt_mono_rel [rotated])
    fix a b
    assume "a \<in> set (sort_key (\<lambda>s. descKey (similarity s)) sims)"
      and "b \<in> set (sort_key (\<lambda>s. descKey (similarity s)) sims)"
      and "descKey (similarity a) \<le> descKey (similarity b)"
    with assms show "jge (similarity a) (similarity b)"
      by (simp add: descKey_jge)
  qed
qed

text \<open>
  Claim C10. \<open>findSimilarAPIs\<close> returns the empty list when nothing is cached under the
  target id. Every record of a returned list has the target as \<open>api1\<close> and the id of
  another cached entry as \<open>api2\<close>, never the target; its similarity is the similarity
  computed for the two cached vectors and passes \<open>similarity >= threshold\<close> (equality is
  admitted); its shared capabilities are the target's capabilities that the other entry has
  too; and the list is in descending order of similarity. When all cached vectors have the
  target's dimension, a list is returned.
\<close>

theorem findSimilarAPIs_records:
  "(map_of embeddings targetApiId = None \<longrightarrow>
      findSimilarAPIs r embeddings targetApiId threshold = Inr []) \<and>
   (findSimilarAPIs r embeddings targetApiId threshold = Inr result \<longrightarrow>
      sorted_wrt (\<lambda>a b. jge (similarity a) (similarity b)) result \<and>
      (\<forall>x\<in>set result.
         api1 x = targetApiId \<and> api2 x \<noteq> targetApiId \<and> jge (similarity x) threshold \<and>
         (\<exists>te e. map_of embeddings targetApiId = Some te \<and> (api2 x, e) \<in> set embeddings \<and>
            calculateSimilarity r (embedding te) (embedding e) = Inr (similarity x) \<and>
            sharedCapabilities x =
              filter (\<lambda>cap. cap \<in> set (md_capabilities (metadata e)))
                     (md_capabilities (metadata te))))) \<and>
   (map_of embeddings targetApiId = Some te \<and>
    (\<forall>p\<in>set embeddings. length (embedding (snd p)) = length (embedding te)) \<longrightarrow>
      (\<exists>res. findSimilarAPIs r embeddings targetApiId threshold = Inr res))"
proof (intro conjI impI)
  assume "map_of embeddings targetApiId = None"
  then show "findSimilarAPIs r embeddings targetApiId threshold = Inr []"
    by (simp add: findSimilarAPIs_def)
next
  assume a: "findSimilarAPIs r embeddings targetApiId threshold = Inr result"
  show "sorted_wrt (\<lambda>a b. jge (similarity a) (similarity b)) result"
  proof (cases "map_of embeddings targetApiId")
    case None
    with a show ?thesis by (simp add: findSimilarAPIs_def)
  next
    case (Some te')
    with a obtain sims where
      l: "findSimilarLoop r targetApiId te' threshold embeddings = Inr sims"
      and res: "result = sort_key (\<lambda>s. descKey (similarity s)) sims"
      by (auto simp: findSimilarAPIs_def split: sum.splits)
    have "\<forall>s\<in>set sims. similarity s \<noteq> NaN"
      using findSimilarLoop_sound [OF l] jge_not_NaN by blast
    then show ?thesis
      unfolding res by (rule sorted_descending)
  qed
  show "\<forall>x\<in>set result.
         api1 x = targetApiId \<and> api2 x \<noteq> targetApiId \<and> jge (similarity x) threshold \<and>
         (\<exists>te e. map_of embeddings targetApiId = Some te \<and> (api2 x, e) \<in> set embeddings \<and>
            calculateSimilarity r (embedding te) (embedding e) = Inr (similarity x) \<and>
            sharedCapabilities x =
              filter (\<lambda>cap. cap \<in> set (md_capabilities (metadata e)))
                     (md_capabilities (metadata te)))"
  proof (cases "map_of embeddings targetApiId")
    case None
    with a show ?thesis by (simp add: findSimilarAPIs_def)
  next
    case (Some te')
    with a obtain sims where
      l: "findSimilarLoop r targetApiId te' threshold embeddings = Inr sims"
      and res: "result = sort_key (\<lambda>s. descKey (similarity s)) sims"
      by (auto simp: findSimilarAPIs_def split: sum.splits)
    show ?thesis
    proof
      fix x assume "x \<in> set result"
      with res have "x \<in> set sims" by simp
      from findSimilarLoop_sound [OF l this] Some
      show "api1 x = targetApiId \<and> api2 x \<noteq> targetApiId \<and> jge (similarity x) threshold \<and>
         (\<exists>te e. map_of embeddings targetApiId = Some te \<and> (api2 x, e) \<in> set embeddings \<and>
            calculateSimilarity r (embedding te) (embedding e) = Inr (similarity x) \<and>
            sharedCapabilities x =
              filter (\<lambda>cap. cap \<in> set (md_capabilities (metadata e)))
                     (md_capabilities (metadata te)))"
        by blast
    qed
  qed
next
  assume "map_of embeddings targetApiId = Some te \<and>
    (\<forall>p\<in>set embeddings. length (embedding (snd p)) = length (embedding te))"
  then show "\<exists>res. findSimilarAPIs r embeddings targetApiId threshold = Inr res"
    using findSimilarLoop_total [of embeddings te r targetApiId threshold]
    by (auto simp: findSimilarAPIs_def)
qed

lemma similarity_parallel: "calculateSimilarity exact [Fin 1, Fin 0] [Fin 1, Fin 0] = Inr (Fin 1)"
  by (simp add: calculateSimilarity_same_length floatCosine_parallel)

lemma similarity_orthogonal: "calculateSimilarity exact [Fin 1, Fin 0] [Fin 0, Fin 1] = Inr (Fin 0)"
  by (simp add: calculateSimilarity_same_length floatCosine_orthogonal)

lemma findSimilarAPIs_cacheABC: "findSimilarAPIs exact cacheABC ''a'' (Fin 1) = Inr [recAB]"
  by (simp add: findSimilarAPIs_def cacheABC_def embA_def embB_def embC_def mkEmbedding_def
      similarity_parallel similarity_orthogonal sharedCaps_def recAB_def jge_def)

theorem findSimilarAPIs_records_witness:
  "findSimilarAPIs exact cacheABC ''z'' (Fin 1) = Inr [] \<and>
   findSimilarAPIs exact cacheABC ''a'' (Fin 1) = Inr [recAB] \<and>
   api1 recAB = ''a'' \<and> api2 recAB \<noteq> ''a'' \<and> jge (similarity recAB) (Fin 1) \<and>
   sharedCapabilities recAB = [''text-generation'']"
proof -
  have none: "map_of cacheABC ''z'' = None"
    by (simp add: cacheABC_def)
  have z: "findSimilarAPIs exact cacheABC ''z'' (Fin 1) = Inr []"
    using findSimilarAPIs_records [where embeddings = cacheABC and targetApiId = "''z''"
        and threshold = "Fin 1" and r = exact] none
    by blast
  have "\<forall>x\<in>set [recAB]. api1 x = ''a'' \<and> api2 x \<noteq> ''a'' \<and> jge (similarity x) (Fin 1)"
    using findSimilarAPIs_records [where embeddings = cacheABC and targetApiId = "''a''"
        and threshold = "Fin 1" and result = "[recAB]" and r = exact] findSimilarAPIs_cacheABC
    by blast
  then have a: "api1 recAB = ''a'' \<and> api2 recAB \<noteq> ''a'' \<and> jge (similarity recAB) (Fin 1)"
    by simp
  have cached: "map_of cacheABC ''a'' = Some embA \<and>
      (\<forall>p\<in>set cacheABC. length (embedding (snd p)) = length (embedding embA))"
    by (simp add: cacheABC_def embA_def embB_def embC_def mkEmbedding_def)
  have "\<exists>res. findSimilarAPIs exact cacheABC ''a'' (Fin 1) = Inr res"
    using findSimilarAPIs_records [where embeddings = cacheABC and targetApiId = "''a''"
        and threshold = "Fin 1" and te = embA and r = exact] cached
    by blast
  show ?thesis
    using z a findSimilarAPIs_cacheABC by (simp add: recAB_def)
qed

section \<open>Grouping into an insertion-ordered map\<close>

lemma set_firstOcc [simp]: "set (firstOcc xs) = set xs"
  by (simp add: firstOcc_def)

lemma distinct_firstOcc [simp]: "distinct (firstOcc xs)"
  by (simp add: firstOcc_def)

lemma firstOcc_Nil [simp]: "firstOcc [] = []"
  by (simp add: firstOcc_def)

lemma firstOcc_snoc:
  "firstOcc (xs @ [x]) = (if x \<in> set xs then firstOcc xs else firstOcc xs @ [x])"
  by (simp add: firstOcc_def)

lemma firstOcc_append:
  "firstOcc (xs @ ys) = firstOcc xs @ filter (\<lambda>y. y \<notin> set xs) (firstOcc ys)"
proof (induction ys rule: rev_induct)
  case Nil
  then show ?case by simp
next
  case (snoc y ys)
  have "firstOcc (xs @ ys @ [y]) = firstOcc ((xs @ ys) @ [y])" by simp
  also have "\<dots> = (if y \<in> set (xs @ ys) then firstOcc (xs @ ys) else firstOcc (xs @ ys) @ [y])"
    by (rule firstOcc_snoc)
  finally show ?case
    using snoc by (auto simp: firstOcc_snoc)
qed

lemma firstOcc_Cons: "firstOcc (x # xs) = x # filter (\<lambda>y. y \<noteq> x) (firstOcc xs)"
  using firstOcc_append [of "[x]" xs] by (simp add: firstOcc_def)

lemma firstOcc_distinct: "distinct xs \<Longrightarrow> firstOcc xs = xs"
  by (induction xs) (auto simp: firstOcc_Cons intro: filter_True)

text \<open>
  A sequence of grouping steps from the empty map yields the keys in the order of their first
  occurrence, each with the values added under it.
\<close>

lemma mapHas_mapModify [simp]: "map fst (mapModify k f m) = map fst m"
  by (induction m) auto

lemma mapSet_absent: "k \<notin> set (map fst m) \<Longrightarrow> mapSet k v m = m @ [(k, v)]"
  by (induction m) auto

lemma mapModify_absent: "k \<notin> set (map fst m) \<Longrightarrow> mapModify k f (m @ [(k, v)]) = m @ [(k, f v)]"
  by (induction m) auto

lemma mapModify_map:
  "distinct ks \<Longrightarrow>
   mapModify k f (map (\<lambda>k'. (k', F k')) ks) =
     map (\<lambda>k'. (k', if k' = k then f (F k') else F k')) ks"
proof (induction ks)
  case Nil
  then show ?case by simp
next
  case (Cons a ks)
  show ?case
  proof (cases "a = k")
    case True
    with Cons.prems have "k \<notin> set ks" by simp
    then have "map (\<lambda>k'. (k', if k' = k then f (F k') else F k')) ks = map (\<lambda>k'. (k', F k')) ks"
      by (intro map_cong) auto
    with True show ?thesis by simp
  next
    case False
    with Cons show ?thesis by simp
  qed
qed

lemma valuesOf_snoc:
  "valuesOf g (evs @ [(k, v)]) k' = (if k' = k then g v (valuesOf g evs k') else valuesOf g evs k')"
  by (simp add: valuesOf_def)

lemma valuesOf_absent: "k \<notin> set (map fst evs) \<Longrightarrow> valuesOf g evs k = []"
proof -
  assume "k \<notin> set (map fst evs)"
  then have "filter (\<lambda>e. fst e = k) evs = []"
    by (auto simp: filter_empty_conv)
  then show ?thesis by (simp add: valuesOf_def)
qed

lemma put_grouped: "put g k v (grouped g evs) = grouped g (evs @ [(k, v)])"
proof (cases "k \<in> set (map fst evs)")
  case True
  then have has: "mapHas k (grouped g evs)"
    by (simp add: mapHas_def grouped_def comp_def)
  have "put g k v (grouped g evs) =
      map (\<lambda>k'. (k', if k' = k then g v (valuesOf g evs k') else valuesOf g evs k'))
          (firstOcc (map fst evs))"
    using has by (simp add: put_def ensureKey_def grouped_def mapModify_map)
  also have "\<dots> = grouped g (evs @ [(k, v)])"
    using True by (simp add: grouped_def firstOcc_snoc valuesOf_snoc)
  finally show ?thesis .
next
  case False
  then have nhas: "\<not> mapHas k (grouped g evs)"
    by (simp add: mapHas_def grouped_def comp_def)
  have keys: "k \<notin> set (map fst (grouped g evs))"
    using False by (simp add: grouped_def comp_def)
  have "put g k v (grouped g evs) = grouped g evs @ [(k, g v [])]"
    using nhas keys by (simp add: put_def ensureKey_def mapSet_absent mapModify_absent)
  also have "\<dots> = grouped g (evs @ [(k, v)])"
  proof -
    have "map (\<lambda>k'. (k', valuesOf g (evs @ [(k, v)]) k')) (firstOcc (map fst evs)) =
          map (\<lambda>k'. (k', valuesOf g evs k')) (firstOcc (map fst evs))"
      using False by (intro map_cong) (auto simp: valuesOf_snoc)
    then show ?thesis
      using False by (simp add: grouped_def firstOcc_snoc valuesOf_snoc valuesOf_absent)
  qed
  finally show ?thesis .
qed

lemma foldl_put_grouped:
  "foldl (\<lambda>m e. put g (fst e) (snd e) m) [] evs = grouped g evs"
proof (induction evs rule: rev_induct)
  case Nil
  then show ?case by (simp add: grouped_def)
next
  case (snoc e evs)
  then show ?case
    using put_grouped [of g "fst e" "snd e" evs] by simp
qed

section \<open>Properties of identifyClusters\<close>

lemma foldl_snoc_all: "foldl (\<lambda>vs v. vs @ [v]) acc xs = acc @ xs"
  by (induction xs arbitrary: acc) auto

lemma valuesOf_append: "valuesOf (\<lambda>v vs. vs @ [v]) evs k = map snd (filter (\<lambda>e. fst e = k) evs)"
  by (simp add: valuesOf_def foldl_snoc_all)

lemma typeGroups_closed:
  "typeGroups ns = map (\<lambda>t. (t, nodesOfType t ns)) (firstOcc (map node_type ns))"
proof -
  have "typeGroups ns =
      foldl (\<lambda>m e. put (\<lambda>v vs. vs @ [v]) (fst e) (snd e) m) [] (map (\<lambda>n. (node_type n, n)) ns)"
    by (simp add: typeGroups_def groupPush_def put_def foldl_map)
  also have "\<dots> = grouped (\<lambda>v vs. vs @ [v]) (map (\<lambda>n. (node_type n, n)) ns)"
    by (rule foldl_put_grouped)
  also have "\<dots> = map (\<lambda>t. (t, nodesOfType t ns)) (firstOcc (map node_type ns))"
    by (simp add: grouped_def valuesOf_append comp_def filter_map nodesOfType_def)
  finally show ?thesis .
qed

lemma foldl_nested:
  "foldl (\<lambda>m n. foldl (\<lambda>m' c. h c n m') m (cs n)) m0 ns =
   foldl (\<lambda>m e. h (fst e) (snd e) m) m0 (concat (map (\<lambda>n. map (\<lambda>c. (c, n)) (cs n)) ns))"
  by (induction ns arbitrary: m0) (simp_all add: foldl_map)

lemma capEvents_keys: "map fst (capEvents ns) = concat (map node_capabilities ns)"
  by (induction ns) (simp_all add: capEvents_def comp_def)

lemma capEvents_values:
  "\<forall>n\<in>set ns. distinct (node_capabilities n) \<Longrightarrow>
   map snd (filter (\<lambda>e. fst e = cap) (capEvents ns)) = nodesWithCapability cap ns"
proof (induction ns)
  case Nil
  then show ?case by (simp add: capEvents_def nodesWithCapability_def)
next
  case (Cons n ns)
  have one: "distinct cs \<Longrightarrow>
      map snd (filter (\<lambda>e. fst e = cap) (map (\<lambda>c. (c, n)) cs)) = (if cap \<in> set cs then [n] else [])"
    for cs :: "string list"
    by (induction cs) auto
  from Cons have "map snd (filter (\<lambda>e. fst e = cap) (capEvents ns)) = nodesWithCapability cap ns"
    by simp
  moreover from Cons.prems have "distinct (node_capabilities n)" by simp
  ultimately show ?case
    using one [of "node_capabilities n"]
    by (simp add: capEvents_def nodesWithCapability_def)
qed

lemma capabilityGroups_closed_events:
  "capabilityGroups ns =
     map (\<lambda>c. (c, map snd (filter (\<lambda>e. fst e = c) (capEvents ns))))
         (firstOcc (concat (map node_capabilities ns)))"
proof -
  have "capabilityGroups ns =
      foldl (\<lambda>m e. put (\<lambda>v vs. vs @ [v]) (fst e) (snd e) m) [] (capEvents ns)"
    unfolding capabilityGroups_def capEvents_def
    by (subst foldl_nested [symmetric]) (simp add: groupPush_def put_def)
  also have "\<dots> = grouped (\<lambda>v vs. vs @ [v]) (capEvents ns)"
    by (rule foldl_put_grouped)
  finally show ?thesis
    by (simp add: grouped_def valuesOf_append capEvents_keys)
qed

lemma capabilityGroups_closed:
  assumes "\<forall>n\<in>set ns. distinct (node_capabilities n)"
  shows "capabilityGroups ns =
     map (\<lambda>c. (c, nodesWithCapability c ns)) (firstOcc (concat (map node_capabilities ns)))"
  using capEvents_values [OF assms]
  by (simp add: capabilityGroups_closed_events)

lemma identifyClusters_min_size: "c \<in> set (identifyClusters ns es) \<Longrightarrow> 2 \<le> length (members c)"
  by (auto simp: identifyClusters_def typeCluster_def capabilityCluster_def)

lemma nodesOfType_nonempty: "2 \<le> length (nodesOfType t ns) \<Longrightarrow> t \<in> set (map node_type ns)"
proof -
  assume "2 \<le> length (nodesOfType t ns)"
  then have "nodesOfType t ns \<noteq> []" by auto
  then show ?thesis by (auto simp: nodesOfType_def filter_empty_conv)
qed

lemma nodesWithCapability_nonempty:
  "2 \<le> length (nodesWithCapability cap ns) \<Longrightarrow> cap \<in> set (concat (map node_capabilities ns))"
proof -
  assume "2 \<le> length (nodesWithCapability cap ns)"
  then have "nodesWithCapability cap ns \<noteq> []" by auto
  then show ?thesis by (auto simp: nodesWithCapability_def filter_empty_conv)
qed

lemma type_clusters:
  "{c \<in> set (identifyClusters ns es). cluster_type c = ''type-based''} =
   {\<lparr>cluster_id = ''cluster-'' @ t, cluster_type = ''type-based'',
     members = map node_id (nodesOfType t ns)\<rparr> | t. 2 \<le> length (nodesOfType t ns)}"
  (is "?L = ?R")
proof
  show "?L \<subseteq> ?R"
    by (auto simp: identifyClusters_def typeGroups_closed typeCluster_def capabilityCluster_def)
  show "?R \<subseteq> ?L"
  proof
    fix c assume "c \<in> ?R"
    then obtain t where c: "c = \<lparr>cluster_id = ''cluster-'' @ t, cluster_type = ''type-based'',
     members = map node_id (nodesOfType t ns)\<rparr>" and t: "2 \<le> length (nodesOfType t ns)"
      by blast
    from t have "(t, nodesOfType t ns) \<in> set (filter (\<lambda>g. length (snd g) > 1) (typeGroups ns))"
      using nodesOfType_nonempty [OF t] by (auto simp: typeGroups_closed)
    then have "typeCluster (t, nodesOfType t ns) \<in> set (identifyClusters ns es)"
      unfolding identifyClusters_def by (simp add: image_iff) blast
    with c show "c \<in> ?L" by (simp add: typeCluster_def)
  qed
qed

lemma capability_clusters:
  assumes "\<forall>n\<in>set ns. distinct (node_capabilities n)"
  shows "{c \<in> set (identifyClusters ns es). cluster_type c = ''capability-based''} =
   {\<lparr>cluster_id = ''cluster-capability-'' @ cap, cluster_type = ''capability-based'',
     members = map node_id (nodesWithCapability cap ns)\<rparr> | cap.
       2 \<le> length (nodesWithCapability cap ns)}"
  (is "?L = ?R")
proof
  show "?L \<subseteq> ?R"
    by (auto simp: identifyClusters_def capabilityGroups_closed [OF assms] typeCluster_def
        capabilityCluster_def)
  show "?R \<subseteq> ?L"
  proof
    fix c assume "c \<in> ?R"
    then obtain cap where c: "c = \<lparr>cluster_id = ''cluster-capability-'' @ cap,
        cluster_type = ''capability-based'',
        members = map node_id (nodesWithCapability cap ns)\<rparr>"
      and t: "2 \<le> length (nodesWithCapability cap ns)"
      by blast
    from t have "(cap, nodesWithCapability cap ns)
        \<in> set (filter (\<lambda>g. length (snd g) > 1) (capabilityGroups ns))"
      using nodesWithCapability_nonempty [OF t] by (auto simp: capabilityGroups_closed [OF assms])
    then have "capabilityCluster (cap, nodesWithCapability cap ns) \<in> set (identifyClusters ns es)"
      unfolding identifyClusters_def by (simp add: image_iff) blast
    with c show "c \<in> ?L" by (simp add: capabilityCluster_def)
  qed
qed

text \<open>
  Without a condition on the capability lists, a node is pushed onto the group of a tag once
  for every time it lists the tag.
\<close>

lemma capEvents_listings:
  "map snd (filter (\<lambda>e. fst e = cap) (capEvents ns)) = listings cap ns"
proof (induction ns)
  case Nil
  then show ?case by (simp add: capEvents_def listings_def)
next
  case (Cons n ns)
  have one: "map snd (filter (\<lambda>e. fst e = cap) (map (\<lambda>c. (c, n)) cs)) =
      replicate (count_list cs cap) n" for cs :: "string list"
    by (induction cs) auto
  from Cons show ?case
    using one [of "node_capabilities n"]
    by (simp add: capEvents_def listings_def)
qed

lemma capabilityGroups_listings:
  "capabilityGroups ns =
     map (\<lambda>c. (c, listings c ns)) (firstOcc (concat (map node_capabilities ns)))"
  by (simp add: capabilityGroups_closed_events capEvents_listings)

lemma listings_distinct:
  assumes "\<forall>n\<in>set ns. distinct (node_capabilities n)"
  shows "listings cap ns = nodesWithCapability cap ns"
  using capEvents_values [OF assms, of cap] by (simp add: capEvents_listings)

lemma listings_nonempty:
  "2 \<le> length (listings cap ns) \<Longrightarrow> cap \<in> set (concat (map node_capabilities ns))"
proof -
  assume "2 \<le> length (listings cap ns)"
  then have "listings cap ns \<noteq> []" by auto
  then obtain n where "n \<in> set ns" "count_list (node_capabilities n) cap \<noteq> 0"
    by (auto simp: listings_def)
  then show ?thesis
    by (auto simp: count_list_0_iff)
qed

lemma capability_clusters_listings:
  "{c \<in> set (identifyClusters ns es). cluster_type c = ''capability-based''} =
   {\<lparr>cluster_id = ''cluster-capability-'' @ cap, cluster_type = ''capability-based'',
     members = map node_id (listings cap ns)\<rparr> | cap. 2 \<le> length (listings cap ns)}"
  (is "?L = ?R")
proof
  show "?L \<subseteq> ?R"
    by (auto simp: identifyClusters_def capabilityGroups_listings typeCluster_def
        capabilityCluster_def)
  show "?R \<subseteq> ?L"
  proof
    fix c assume "c \<in> ?R"
    then obtain cap where c: "c = \<lparr>cluster_id = ''cluster-capability-'' @ cap,
        cluster_type = ''capability-based'', members = map node_id (listings cap ns)\<rparr>"
      and t: "2 \<le> length (listings cap ns)"
      by blast
    from t have "(cap, listings cap ns)
        \<in> set (filter (\<lambda>g. length (snd g) > 1) (capabilityGroups ns))"
      using listings_nonempty [OF t] by (auto simp: capabilityGroups_listings)
    then have "capabilityCluster (cap, listings cap ns) \<in> set (identifyClusters ns es)"
      unfolding identifyClusters_def by (simp add: image_iff) blast
    with c show "c \<in> ?L" by (simp add: capabilityCluster_def)
  qed
qed

text \<open>
  The claim C9 as stated fails for the capability-based clusters: a single node that lists
  the tag \<open>x\<close> twice gets a cluster of its own, with its id twice as members, although
  only one node declares the tag.
\<close>

theorem identifyClusters_doubled_tag:
  "identifyClusters [doubledNode] [] = [doubledCluster] \<and>
   nodesWithCapability ''x'' [doubledNode] = [doubledNode] \<and>
   members doubledCluster = [''n1'', ''n1''] \<and>
   set (members doubledCluster) = {''n1''}"
  by (simp add: identifyClusters_def typeGroups_def capabilityGroups_def groupPush_def
      ensureKey_def mapHas_def doubledNode_def doubledCluster_def typeCluster_def
      capabilityCluster_def nodesWithCapability_def)

text \<open>
  Claim C9, amended. No cluster of \<open>identifyClusters\<close> has fewer than two member entries.
  The type-based clusters are exactly one for each category tag that at least two nodes
  have, with the ids of exactly those nodes as members. The capability-based clusters are
  exactly one for each capability tag that is listed at least twice over all nodes, with the
  id of a node once for each time the node lists the tag. When no node lists a tag twice,
  these are exactly the nodes that declare the tag, and the capability-based clusters are
  exactly one for each capability tag that at least two nodes declare, with the ids of
  exactly those nodes as members. The two groupings are made independently of each other:
  in the demonstration data one node is a member of one type cluster and of two capability
  clusters.
\<close>

theorem identifyClusters_groups:
  "(\<forall>c\<in>set (identifyClusters ns es). 2 \<le> length (members c)) \<and>
   {c \<in> set (identifyClusters ns es). cluster_type c = ''type-based''} =
     {\<lparr>cluster_id = ''cluster-'' @ t, cluster_type = ''type-based'',
       members = map node_id (nodesOfType t ns)\<rparr> | t. 2 \<le> length (nodesOfType t ns)} \<and>
   {c \<in> set (identifyClusters ns es). cluster_type c = ''capability-based''} =
     {\<lparr>cluster_id = ''cluster-capability-'' @ cap, cluster_type = ''capability-based'',
       members = map node_id (listings cap ns)\<rparr> | cap. 2 \<le> length (listings cap ns)} \<and>
   ((\<forall>n\<in>set ns. distinct (node_capabilities n)) \<longrightarrow>
    listings cap' ns = nodesWithCapability cap' ns \<and>
    {c \<in> set (identifyClusters ns es). cluster_type c = ''capability-based''} =
      {\<lparr>cluster_id = ''cluster-capability-'' @ cap, cluster_type = ''capability-based'',
        members = map node_id (nodesWithCapability cap ns)\<rparr> | cap.
          2 \<le> length (nodesWithCapability cap ns)})"
proof (intro conjI impI)
  show "\<forall>c\<in>set (identifyClusters ns es). 2 \<le> length (members c)"
    using identifyClusters_min_size by blast
  show "{c \<in> set (identifyClusters ns es). cluster_type c = ''type-based''} =
     {\<lparr>cluster_id = ''cluster-'' @ t, cluster_type = ''type-based'',
       members = map node_id (nodesOfType t ns)\<rparr> | t. 2 \<le> length (nodesOfType t ns)}"
    by (rule type_clusters)
  show "{c \<in> set (identifyClusters ns es). cluster_type c = ''capability-based''} =
     {\<lparr>cluster_id = ''cluster-capability-'' @ cap, cluster_type = ''capability-based'',
       members = map node_id (listings cap ns)\<rparr> | cap. 2 \<le> length (listings cap ns)}"
    by (rule capability_clusters_listings)
next
  assume d: "\<forall>n\<in>set ns. distinct (node_capabilities n)"
  show "listings cap' ns = nodesWithCapability cap' ns"
    by (rule listings_distinct [OF d])
  show "{c \<in> set (identifyClusters ns es). cluster_type c = ''capability-based''} =
      {\<lparr>cluster_id = ''cluster-capability-'' @ cap, cluster_type = ''capability-based'',
        members = map node_id (nodesWithCapability cap ns)\<rparr> | cap.
          2 \<le> length (nodesWithCapability cap ns)}"
    by (rule capability_clusters [OF d])
qed

lemma identifyClusters_demo: "identifyClusters demoNodes [] = demoClusters"
  by (simp add: identifyClusters_def typeGroups_def capabilityGroups_def groupPush_def
      ensureKey_def mapHas_def demoNodes_def demoClusters_def typeCluster_def capabilityCluster_def)


theorem identifyClusters_groups_witness:
  "identifyClusters demoNodes [] = demoClusters \<and>
   {c \<in> set (identifyClusters demoNodes []). cluster_type c = ''capability-based''} =
     {\<lparr>cluster_id = ''cluster-capability-'' @ cap, cluster_type = ''capability-based'',
       members = map node_id (nodesWithCapability cap demoNodes)\<rparr> | cap.
         2 \<le> length (nodesWithCapability cap demoNodes)} \<and>
   cluster_type (demoClusters ! 0) = ''type-based'' \<and>
   cluster_type (demoClusters ! 1) = ''capability-based'' \<and>
   cluster_type (demoClusters ! 2) = ''capability-based'' \<and>
   ''openai-demo'' \<in> set (members (demoClusters ! 0)) \<inter> set (members (demoClusters ! 1)) \<inter>
                      set (members (demoClusters ! 2))"
proof -
  have d: "\<forall>n\<in>set demoNodes. distinct (node_capabilities n)"
    by (simp add: demoNodes_def)
  have "{c \<in> set (identifyClusters demoNodes []). cluster_type c = ''capability-based''} =
     {\<lparr>cluster_id = ''cluster-capability-'' @ cap, cluster_type = ''capability-based'',
       members = map node_id (nodesWithCapability cap demoNodes)\<rparr> | cap.
         2 \<le> length (nodesWithCapability cap demoNodes)}"
    using identifyClusters_groups [of demoNodes "[]"] d by blast
  moreover have "cluster_type (demoClusters ! 0) = ''type-based'' \<and>
   cluster_type (demoClusters ! 1) = ''capability-based'' \<and>
   cluster_type (demoClusters ! 2) = ''capability-based'' \<and>
   ''openai-demo'' \<in> set (members (demoClusters ! 0)) \<inter> set (members (demoClusters ! 1)) \<inter>
                      set (members (demoClusters ! 2))"
    by (simp add: demoClusters_def)
  ultimately show ?thesis
    using identifyClusters_demo by blast
qed

section \<open>Properties of generateRecommendations\<close>

lemma ensureKey_has: "k \<in> set (map fst (ensureKey k m))"
proof -
  have "k \<in> fst ` set (mapSet k v m)" for v :: "'b list"
  proof (induction m)
    case Nil
    then show ?case by simp
  next
    case (Cons p m)
    then show ?case by (cases p) force
  qed
  then show ?thesis by (simp add: ensureKey_def mapHas_def)
qed

lemma ensureKey_idem: "ensureKey k (mapModify k f (ensureKey k m)) = mapModify k f (ensureKey k m)"
  using ensureKey_has [of k m] by (simp add: ensureKey_def [of k "mapModify k f (ensureKey k m)"] mapHas_def)

lemma clusterStep_put:
  "clusterStep sim m cap = put pushIfAbsent cap (api2 sim) (put pushIfAbsent cap (api1 sim) m)"
  by (simp add: clusterStep_def put_def ensureKey_idem)

lemma foldl_clusterStep:
  "foldl (clusterStep s) m cs =
   foldl (\<lambda>m e. put pushIfAbsent (fst e) (snd e) m) m
         (concat (map (\<lambda>c. [(c, api1 s), (c, api2 s)]) cs))"
  by (induction cs arbitrary: m) (simp_all add: clusterStep_put)

lemma foldl_capabilityClusters:
  "foldl (\<lambda>m sim. foldl (clusterStep sim) m (sharedCapabilities sim)) m sims =
   foldl (\<lambda>m e. put pushIfAbsent (fst e) (snd e) m) m (simEvents sims)"
  by (induction sims arbitrary: m) (simp_all add: simEvents_def foldl_clusterStep)

lemma foldl_pushIfAbsent: "foldl (\<lambda>vs v. pushIfAbsent v vs) [] xs = firstOcc xs"
  by (induction xs rule: rev_induct) (simp_all add: pushIfAbsent_def firstOcc_snoc)

lemma firstOcc_repeat: "xs \<noteq> [] \<Longrightarrow> firstOcc (concat (map (\<lambda>_. ys) xs)) = firstOcc ys"
proof (induction xs)
  case Nil
  then show ?case by simp
next
  case (Cons x xs)
  have "set (concat (map (\<lambda>_. ys) xs)) \<subseteq> set ys" by auto
  then have "filter (\<lambda>y. y \<notin> set ys) (firstOcc (concat (map (\<lambda>_. ys) xs))) = []"
    by (auto simp: filter_empty_conv)
  then show ?case by (simp add: firstOcc_append)
qed

lemma firstOcc_doubled: "firstOcc (concat (map (\<lambda>c. [c, c]) xs)) = firstOcc xs"
  by (induction xs) (simp_all add: firstOcc_Cons)

lemma simEvents_keys:
  "firstOcc (map fst (simEvents sims)) = firstOcc (concat (map sharedCapabilities sims))"
proof -
  have "map fst (simEvents sims) = concat (map (\<lambda>c. [c, c]) (concat (map sharedCapabilities sims)))"
    by (induction sims) (simp_all add: simEvents_def map_concat comp_def)
  then show ?thesis by (simp add: firstOcc_doubled)
qed

lemma simEvents_values:
  "firstOcc (map snd (filter (\<lambda>e. fst e = cap) (simEvents sims))) = participants cap sims"
proof (induction sims)
  case Nil
  then show ?case by (simp add: simEvents_def participants_def)
next
  case (Cons s sims)
  have block: "map snd (filter (\<lambda>e. fst e = cap)
                  (concat (map (\<lambda>c. [(c, api1 s), (c, api2 s)]) cs))) =
               concat (map (\<lambda>_. [api1 s, api2 s]) (filter (\<lambda>c. c = cap) cs))"
    for cs
    by (induction cs) auto
  have split: "map snd (filter (\<lambda>e. fst e = cap) (simEvents (s # sims))) =
      concat (map (\<lambda>_. [api1 s, api2 s]) (filter (\<lambda>c. c = cap) (sharedCapabilities s))) @
      map snd (filter (\<lambda>e. fst e = cap) (simEvents sims))"
    by (simp add: simEvents_def block)
  show ?case
  proof (cases "cap \<in> set (sharedCapabilities s)")
    case True
    then have ne: "filter (\<lambda>c. c = cap) (sharedCapabilities s) \<noteq> []"
      by (auto simp: filter_empty_conv)
    have "set (concat (map (\<lambda>_. [api1 s, api2 s]) (filter (\<lambda>c. c = cap) (sharedCapabilities s)))) =
        {api1 s, api2 s}"
      using ne by (cases "filter (\<lambda>c. c = cap) (sharedCapabilities s)") auto
    then have "firstOcc (map snd (filter (\<lambda>e. fst e = cap) (simEvents (s # sims)))) =
        firstOcc [api1 s, api2 s] @
        filter (\<lambda>y. y \<notin> {api1 s, api2 s}) (participants cap sims)"
      using Cons.IH firstOcc_repeat [OF ne, of "[api1 s, api2 s]"]
      by (simp only: split firstOcc_append)
    moreover have "participants cap (s # sims) =
        firstOcc ([api1 s, api2 s] @
          concat (map (\<lambda>s. [api1 s, api2 s])
                      (filter (\<lambda>s. cap \<in> set (sharedCapabilities s)) sims)))"
      using True by (simp add: participants_def)
    moreover have "\<dots> = firstOcc [api1 s, api2 s] @
        filter (\<lambda>y. y \<notin> set [api1 s, api2 s]) (participants cap sims)"
      unfolding participants_def by (rule firstOcc_append)
    ultimately show ?thesis by simp
  next
    case False
    then have "filter (\<lambda>c. c = cap) (sharedCapabilities s) = []"
      by (auto simp: filter_empty_conv)
    with False Cons.IH show ?thesis
      by (simp add: split participants_def)
  qed
qed

lemma capabilityClusters_closed:
  "capabilityClusters sims =
     map (\<lambda>cap. (cap, participants cap sims)) (firstOcc (concat (map sharedCapabilities sims)))"
proof -
  have "capabilityClusters sims = grouped pushIfAbsent (simEvents sims)"
    by (simp add: capabilityClusters_def foldl_capabilityClusters foldl_put_grouped)
  then show ?thesis
    by (simp add: grouped_def valuesOf_def foldl_pushIfAbsent simEvents_keys simEvents_values)
qed

lemma participants_set:
  "set (participants cap sims) =
     {a. \<exists>s\<in>set sims. cap \<in> set (sharedCapabilities s) \<and> (a = api1 s \<or> a = api2 s)}"
  by (auto simp: participants_def)

text \<open>
  Claim C7. The list of recommendations is, first, one \<open>high-similarity\<close> recommendation
  of priority \<open>High\<close> naming both ids for each record whose similarity is greater than 0.8,
  in the order of the records; then, for the shared capabilities in the order in which they
  are first met, one \<open>capability-cluster\<close> recommendation of priority \<open>Medium\<close> listing
  the participants of the capability, for those capabilities only that have more than two
  participants. The participants of a capability are the distinct ids of the records that
  share it. Nothing else is in the list, nothing is removed from it and it is not sorted
  again.
\<close>

theorem generateRecommendations_sequence:
  "generateRecommendations r sims =
     map highSimilarityRec (filter (\<lambda>s. jgt (similarity s) (lit r 0.8)) sims) @
     map (\<lambda>cap. capabilityClusterRec (cap, participants cap sims))
         (filter (\<lambda>cap. 2 < length (participants cap sims))
                 (firstOcc (concat (map sharedCapabilities sims)))) \<and>
   distinct (participants cap sims) \<and>
   set (participants cap sims) =
     {a. \<exists>s\<in>set sims. cap \<in> set (sharedCapabilities s) \<and> (a = api1 s \<or> a = api2 s)} \<and>
   rec_type (highSimilarityRec s) = ''high-similarity'' \<and>
   rec_priority (highSimilarityRec s) = High \<and>
   affectedAPIs (highSimilarityRec s) = [api1 s, api2 s] \<and>
   rec_type (capabilityClusterRec (cap, ids)) = ''capability-cluster'' \<and>
   rec_priority (capabilityClusterRec (cap, ids)) = Medium \<and>
   affectedAPIs (capabilityClusterRec (cap, ids)) = ids"
proof -
  have "generateRecommendations r sims =
     map highSimilarityRec (filter (\<lambda>s. jgt (similarity s) (lit r 0.8)) sims) @
     map (\<lambda>cap. capabilityClusterRec (cap, participants cap sims))
         (filter (\<lambda>cap. 2 < length (participants cap sims))
                 (firstOcc (concat (map sharedCapabilities sims))))"
    by (simp add: generateRecommendations_def capabilityClusters_closed filter_map comp_def)
  moreover have "distinct (participants cap sims)"
    by (simp add: participants_def)
  ultimately show ?thesis
    using participants_set [of cap sims]
    by (simp add: highSimilarityRec_def capabilityClusterRec_def)
qed

lemma participants_simsABC: "participants ''text-generation'' simsABC = [''a'', ''b'', ''c'']"
  by (simp add: participants_def simsABC_def firstOcc_def)

theorem generateRecommendations_sequence_witness:
  "generateRecommendations exact simsABC = recsABC"
proof -
  have "filter (\<lambda>s. jgt (similarity s) (lit exact 0.8)) simsABC = [simsABC ! 0]"
    by (simp add: simsABC_def lit_def exact_def)
  moreover have "firstOcc (concat (map sharedCapabilities simsABC)) = [''text-generation'']"
    by (simp add: simsABC_def firstOcc_def)
  ultimately show ?thesis
    using generateRecommendations_sequence [of exact simsABC "''text-generation''" "simsABC ! 0" "[]"]
      participants_simsABC
    by (simp add: recsABC_def highSimilarityRec_def capabilityClusterRec_def simsABC_def)
qed

section \<open>Properties of createSemanticGraph\<close>





























section \<open>Properties of the orchestration engine\<close>

lemma runSteps_all_ok:
  "\<forall>s\<in>set ss. executeStep s = Inr () \<Longrightarrow> runSteps ss = (map ExecuteStep ss, None)"
  by (induction ss) auto

lemma runSteps_first_failure:
  "\<forall>x\<in>set pre. executeStep x = Inr () \<Longrightarrow> executeStep s = Inl e \<Longrightarrow>
   runSteps (pre @ s # post) = (map ExecuteStep (pre @ [s]), Some e)"
  by (induction pre) auto


text \<open>
  Claim C2. \<open>executeFlow\<close> on an unregistered id fails with \<open>FlowNotFound\<close> and changes
  nothing. On a registered flow it calls \<open>executeStep\<close> on the steps in list order. If a
  step fails, with every step before it succeeding, the calls made are exactly those up to
  and including the failing step, the status is set to \<open>Failed\<close> and the error of that step
  is the outcome. If every step succeeds, all steps are called and the status is set to
  \<open>Completed\<close>. A step whose action is none of the four dispatched tags fails with
  \<open>UnknownAction\<close>.
\<close>

theorem executeFlow_fail_fast:
  "(activeFlows flowId = None \<longrightarrow>
      executeFlow flowId activeFlows =
        \<lparr>outcome = Inl (FlowNotFound flowId), registry = activeFlows, trace = []\<rparr>) \<and>
   (activeFlows flowId = Some flow \<and> steps flow = pre @ s # post \<and>
      (\<forall>x\<in>set pre. executeStep x = Inr ()) \<and> executeStep s = Inl e \<longrightarrow>
      executeFlow flowId activeFlows =
        \<lparr>outcome = Inl e,
         registry = activeFlows(flowId \<mapsto> flow\<lparr>status := Failed\<rparr>),
         trace = SetStatus Running # map ExecuteStep (pre @ [s]) @ [SetStatus Failed]\<rparr>) \<and>
   (activeFlows flowId = Some flow \<and> (\<forall>x\<in>set (steps flow). executeStep x = Inr ()) \<longrightarrow>
      executeFlow flowId activeFlows =
        \<lparr>outcome = Inr (),
         registry = activeFlows(flowId \<mapsto> flow\<lparr>status := Completed\<rparr>),
         trace = SetStatus Running # map ExecuteStep (steps flow) @ [SetStatus Completed]\<rparr>) \<and>
   (action t \<notin> {''authenticate'', ''query'', ''transform'', ''forward''} \<longrightarrow>
      executeStep t = Inl (UnknownAction (action t)))"
  by (auto simp: executeFlow_def runSteps_all_ok runSteps_first_failure executeStep_def)

theorem executeFlow_fail_fast_witness:
  "executeFlow ''flow-9'' [''flow-7'' \<mapsto> threeStepFlow] =
     \<lparr>outcome = Inl (FlowNotFound ''flow-9''), registry = [''flow-7'' \<mapsto> threeStepFlow],
      trace = []\<rparr> \<and>
   executeFlow ''flow-7'' [''flow-7'' \<mapsto> threeStepFlow] =
     \<lparr>outcome = Inl (UnknownAction ''sync''),
      registry = [''flow-7'' \<mapsto> threeStepFlow\<lparr>status := Failed\<rparr>],
      trace = [SetStatus Running, ExecuteStep (withId ''a'' authenticateStep),
               ExecuteStep (withId ''b'' syncStep), SetStatus Failed]\<rparr> \<and>
   executeFlow ''flow-8'' [''flow-8'' \<mapsto> twoStepFlow] =
     \<lparr>outcome = Inr (),
      registry = [''flow-8'' \<mapsto> twoStepFlow\<lparr>status := Completed\<rparr>],
      trace = [SetStatus Running, ExecuteStep (withId ''a'' authenticateStep),
               ExecuteStep (withId ''c'' forwardStep), SetStatus Completed]\<rparr>"
proof -
  have a: "executeStep (withId ''a'' authenticateStep) = Inr ()"
    by (simp add: executeStep_def withId_def authenticateStep_def authenticateAPI_def)
  have c: "executeStep (withId ''c'' forwardStep) = Inr ()"
    by (simp add: executeStep_def withId_def forwardStep_def forwardData_def readProperty_def)
  have b: "action (withId ''b'' syncStep) = ''sync''"
    by (simp add: withId_def syncStep_def)
  have b': "executeStep (withId ''b'' syncStep) = Inl (UnknownAction ''sync'')"
    using executeFlow_fail_fast [where t = "withId ''b'' syncStep"] b by simp
  have s3: "steps threeStepFlow =
      [withId ''a'' authenticateStep] @ withId ''b'' syncStep # [withId ''c'' forwardStep]"
    by (simp add: threeStepFlow_def)
  have s2: "steps twoStepFlow = [withId ''a'' authenticateStep, withId ''c'' forwardStep]"
    by (simp add: twoStepFlow_def)
  have unregistered:
    "executeFlow ''flow-9'' [''flow-7'' \<mapsto> threeStepFlow] =
       \<lparr>outcome = Inl (FlowNotFound ''flow-9''), registry = [''flow-7'' \<mapsto> threeStepFlow],
        trace = []\<rparr>"
    using executeFlow_fail_fast [where activeFlows = "[''flow-7'' \<mapsto> threeStepFlow]"
        and flowId = "''flow-9''"]
    by simp
  have failing:
    "executeFlow ''flow-7'' [''flow-7'' \<mapsto> threeStepFlow] =
       \<lparr>outcome = Inl (UnknownAction ''sync''),
        registry = [''flow-7'' \<mapsto> threeStepFlow\<lparr>status := Failed\<rparr>],
        trace = [SetStatus Running, ExecuteStep (withId ''a'' authenticateStep),
                 ExecuteStep (withId ''b'' syncStep), SetStatus Failed]\<rparr>"
    using executeFlow_fail_fast [where activeFlows = "[''flow-7'' \<mapsto> threeStepFlow]"
        and flowId = "''flow-7''" and flow = threeStepFlow
        and pre = "[withId ''a'' authenticateStep]" and s = "withId ''b'' syncStep"
        and post = "[withId ''c'' forwardStep]" and e = "UnknownAction ''sync''"]
      a b' s3
    by simp
  have succeeding:
    "executeFlow ''flow-8'' [''flow-8'' \<mapsto> twoStepFlow] =
       \<lparr>outcome = Inr (),
        registry = [''flow-8'' \<mapsto> twoStepFlow\<lparr>status := Completed\<rparr>],
        trace = [SetStatus Running, ExecuteStep (withId ''a'' authenticateStep),
                 ExecuteStep (withId ''c'' forwardStep), SetStatus Completed]\<rparr>"
    using executeFlow_fail_fast [where activeFlows = "[''flow-8'' \<mapsto> twoStepFlow]"
        and flowId = "''flow-8''" and flow = twoStepFlow]
      a c s2
    by simp
  show ?thesis
    using unregistered failing succeeding by simp
qed





section \<open>Identifiers taken from the clock\<close>

text \<open>
  Claim C6. The claim asks for an id distinct from the id of every other flow. The code takes
  the id from the clock, so two flows created at the same reading get the same id, and the
  second replaces the first in the registry: here the flow named \<open>A\<close> is registered under
  its id after the first call, and after the second call the flow named \<open>B\<close> is registered
  under that id.
\<close>

theorem createOrchestrationFlow_id_collision:
  "flow_id (fst secondCreate) = flow_id (fst firstCreate) \<and>
   flow_name (fst firstCreate) = ''A'' \<and>
   map_option flow_name (snd firstCreate (flow_id (fst firstCreate))) = Some ''A'' \<and>
   map_option flow_name (snd secondCreate (flow_id (fst firstCreate))) = Some ''B''"
  by (simp add: firstCreate_def secondCreate_def createOrchestrationFlow_def Let_def)

text \<open>What does hold of a created flow: no steps, status \<open>Pending\<close>, registered under its id.\<close>

lemma createOrchestrationFlow_pending_empty:
  "steps (fst (createOrchestrationFlow now name apiList activeFlows)) = [] \<and>
   status (fst (createOrchestrationFlow now name apiList activeFlows)) = Pending \<and>
   flow_id (fst (createOrchestrationFlow now name apiList activeFlows)) = ''flow-'' @ decimal now \<and>
   apis (fst (createOrchestrationFlow now name apiList activeFlows)) = map cfg_id apiList \<and>
   snd (createOrchestrationFlow now name apiList activeFlows) (''flow-'' @ decimal now) =
     Some (fst (createOrchestrationFlow now name apiList activeFlows))"
  by (simp add: createOrchestrationFlow_def Let_def)

text \<open>
  The decimal rendering is injective, so the ids of two created flows are equal exactly when
  the two clock readings are.
\<close>

lemma digitValue_digit: "d < 10 \<Longrightarrow> digitValue (digit d) = d"
proof -
  assume "d < 10"
  then have "d \<in> {0, 1, 2, 3, 4, 5, 6, 7, 8, 9}" by auto
  then show ?thesis
    by (auto simp: digitValue_def digit_def)
qed

lemma undecimal_decimal: "undecimal (decimal n) = n"
proof (induction n rule: decimal.induct)
  case (1 n)
  show ?case
  proof (cases "n < 10")
    case True
    then show ?thesis
      by (subst decimal.simps) (simp add: undecimal_def digitValue_digit)
  next
    case False
    with "1.IH" have "undecimal (decimal (n div 10)) = n div 10" by simp
    with False show ?thesis
      by (subst decimal.simps) (simp add: undecimal_def digitValue_digit)
  qed
qed

lemma decimal_inject: "decimal m = decimal n \<longleftrightarrow> m = n"
  using undecimal_decimal by metis

lemma createOrchestrationFlow_id_clock:
  "flow_id (fst (createOrchestrationFlow now1 name1 apis1 st1)) =
   flow_id (fst (createOrchestrationFlow now2 name2 apis2 st2)) \<longleftrightarrow> now1 = now2"
  by (simp add: createOrchestrationFlow_def Let_def decimal_inject)

text \<open>
  Claim C8. The claim asks for a fresh id for the added step. The id is taken from the clock
  as well: two steps added at the same reading carry the same id. The ordering part holds:
  the step of order 1, added second, comes first.
\<close>

theorem addOrchestrationStep_id_collision:
  "flowStepIds ''flow-1'' twoStepsSameClock = Some [''step-5'', ''step-5''] \<and>
   flowStepActions ''flow-1'' twoStepsSameClock = Some [''authenticate'', ''forward'']"
  by (simp add: twoStepsSameClock_def flowStepIds_def flowStepActions_def
      addOrchestrationStep_def createOrchestrationFlow_def engineOf_def decimal.simps digit_def
      authenticateStep_def forwardStep_def Let_def)

text \<open>
  What does hold of \<open>addOrchestrationStep\<close>: it fails with \<open>FlowNotFound\<close> on an
  unregistered id; otherwise the new step is appended and the list sorted stably by
  \<open>order\<close>. On a list that is sorted already, as every list built by this operation is, the
  new step goes behind the steps of smaller or equal order and before those of larger order.
\<close>

lemma addOrchestrationStep_not_found:
  "activeFlows flowId = None \<Longrightarrow>
   addOrchestrationStep now flowId step activeFlows = Inl (FlowNotFound flowId)"
  by (simp add: addOrchestrationStep_def)

lemma addOrchestrationStep_found:
  "activeFlows flowId = Some flow \<Longrightarrow>
   addOrchestrationStep now flowId step activeFlows =
     Inr (activeFlows(flowId \<mapsto>
            flow\<lparr>steps := sort_key order (steps flow @ [withId (''step-'' @ decimal now) step])\<rparr>))"
  by (simp add: addOrchestrationStep_def withId_def Let_def)

lemma sort_key_snoc_sorted:
  fixes f :: "'a \<Rightarrow> int"
  assumes "sorted (map f xs)"
  shows "sort_key f (xs @ [n]) =
           filter (\<lambda>x. f x \<le> f n) xs @ n # filter (\<lambda>x. f n < f x) xs"
proof (rule properties_for_sort_key)
  show "mset (filter (\<lambda>x. f x \<le> f n) xs @ n # filter (\<lambda>x. f n < f x) xs) = mset (xs @ [n])"
    by (induction xs) auto
next
  fix k
  assume "k \<in> set (filter (\<lambda>x. f x \<le> f n) xs @ n # filter (\<lambda>x. f n < f x) xs)"
  show "filter (\<lambda>x. f k = f x) (filter (\<lambda>x. f x \<le> f n) xs @ n # filter (\<lambda>x. f n < f x) xs) =
        filter (\<lambda>x. f k = f x) (xs @ [n])"
  proof -
    have a: "filter (\<lambda>x. f k = f x) (filter (\<lambda>x. f x \<le> f n) xs) =
        (if f k \<le> f n then filter (\<lambda>x. f k = f x) xs else [])"
      by (induction xs) auto
    have b: "filter (\<lambda>x. f k = f x) (filter (\<lambda>x. f n < f x) xs) =
        (if f k \<le> f n then [] else filter (\<lambda>x. f k = f x) xs)"
      by (induction xs) auto
    show ?thesis unfolding filter_append filter.simps a b by simp
  qed
next
  show "sorted (map f (filter (\<lambda>x. f x \<le> f n) xs @ n # filter (\<lambda>x. f n < f x) xs))"
    using assms by (auto simp: sorted_append sorted_map sorted_wrt_filter intro: sorted_wrt_filter)
    
qed


lemma addOrchestrationStep_sorted_stable:
  assumes "activeFlows flowId = Some flow"
  shows "\<exists>flow'. engineOf (addOrchestrationStep now flowId step activeFlows) flowId = Some flow' \<and>
           sorted (map order (steps flow')) \<and>
           mset (steps flow') = mset (steps flow @ [withId (''step-'' @ decimal now) step]) \<and>
           (\<forall>k. filter (\<lambda>s. order s = k) (steps flow') =
                filter (\<lambda>s. order s = k) (steps flow @ [withId (''step-'' @ decimal now) step]))"
  using assms
  by (simp add: addOrchestrationStep_found engineOf_def sort_key_stable del: filter_append)

lemma addOrchestrationStep_position:
  assumes "activeFlows flowId = Some flow" and "sorted (map order (steps flow))"
  shows "addOrchestrationStep now flowId step activeFlows =
           Inr (activeFlows(flowId \<mapsto>
                  flow\<lparr>steps := filter (\<lambda>s. order s \<le> order step) (steps flow) @
                                 withId (''step-'' @ decimal now) step #
                                 filter (\<lambda>s. order step < order s) (steps flow)\<rparr>))"
proof -
  have "order (withId (''step-'' @ decimal now) step) = order step"
    by (simp add: withId_def)
  then show ?thesis
    using assms sort_key_snoc_sorted [of order "steps flow" "withId (''step-'' @ decimal now) step"]
    by (simp add: addOrchestrationStep_found)
qed

end
